theory Spec2Isabelle
  imports Main
begin

section \<open>Errors\<close>

text \<open>
  Every \<open>(error ...)\<close> of \<open>xpr-fix.scm\<close> and every \<open>error(...)\<close> of the C parsers
  ends the run; the model returns the error as the \<open>Inl\<close> of a sum. The constructors
  are named after the messages of the source:
  \<^item> \<open>MissingTokens\<close>: "missing tokens";
  \<^item> \<open>ExtraTokens\<close>: "too many tokens";
  \<^item> \<open>InvalidToken\<close>: "invalid token";
  \<^item> \<open>MissingArguments\<close>: "missing arguments";
  \<^item> \<open>UnbalancedParens MissingOpen\<close>: "missing open bracket",
    \<open>UnbalancedParens InvalidOpen\<close>: "invalid open bracket";
  \<^item> \<open>ParseNumFailed\<close>, \<open>ParseOpFailed\<close>: "failed to parse number", "failed to parse operator";
  \<^item> \<open>UnboundVariable\<close>: the run-time error of a reference to a variable that has no binding;
  \<^item> \<open>BadArgumentType\<close>: the run-time error of a record accessor applied to \<open>#f\<close>.
\<close>

datatype paren_error = MissingOpen | InvalidOpen

datatype error =
    MissingTokens
  | ExtraTokens
  | InvalidToken
  | MissingArguments
  | UnbalancedParens paren_error
  | ParseNumFailed
  | ParseOpFailed
  | UnboundVariable string
  | BadArgumentType

section \<open>xpr-fix.scm: tokens and trees\<close>

text \<open>
  A token is the record \<open>(t, v)\<close> of the source: its type is one of the symbols
  \<open>n o lp rp\<close> (\<open>make-token\<close> refuses any other), its value a number for \<open>n\<close>, the
  operator's symbol for \<open>o\<close> and the one-character string for a parenthesis. The type
  of numbers is a parameter \<open>'n\<close>: it is whatever \<open>string->number\<close> of the host returns.
\<close>

datatype tok_type = TN | TO | TLP | TRP

datatype 'n tok_val = Num 'n | Sym string | Str string

record 'n token =
  tok_t :: tok_type
  tok_v :: "'n tok_val"

definition make_token :: "tok_type \<Rightarrow> 'n tok_val \<Rightarrow> 'n token" where
  "make_token t v = \<lparr>tok_t = t, tok_v = v\<rparr>"

text \<open>
  A tree is a value that is not a list (a leaf), or the three-element list
  \<open>(op left right)\<close>.
\<close>

datatype 'n tree = Leaf "'n tok_val" | Node "'n tok_val" "'n tree" "'n tree"

fun tree_invert :: "'n tree \<Rightarrow> 'n tree" where
  "tree_invert (Leaf v) = Leaf v"
| "tree_invert (Node op l r) = Node op (tree_invert r) (tree_invert l)"

fun leaves :: "'n tree \<Rightarrow> nat" where
  "leaves (Leaf v) = 1"
| "leaves (Node op l r) = leaves l + leaves r"

section \<open>xpr-fix.scm: lexer\<close>

text \<open>
  Modelled from the spec: \<open>string-tokenize\<close> comes from an egg that is not part of the
  sources. \<open>string_tokenize line delims singles\<close> scans left to right, skips the
  characters of \<open>delims\<close>, makes each character of \<open>singles\<close> a word of its own and
  every maximal run of other characters one word. \<open>cur\<close> is the run read so far,
  newest character first.
\<close>

definition flush :: "string \<Rightarrow> string list" where
  "flush cur = (if cur = [] then [] else [rev cur])"

fun tokenize_from :: "string \<Rightarrow> string \<Rightarrow> string \<Rightarrow> string \<Rightarrow> string list" where
  "tokenize_from delims singles cur [] = flush cur"
| "tokenize_from delims singles cur (c # cs) =
     (if c \<in> set delims then flush cur @ tokenize_from delims singles [] cs
      else if c \<in> set singles then flush cur @ [c] # tokenize_from delims singles [] cs
      else tokenize_from delims singles (c # cur) cs)"

definition string_tokenize :: "string \<Rightarrow> string \<Rightarrow> string \<Rightarrow> string list" where
  "string_tokenize line delims singles = tokenize_from delims singles [] line"

text \<open>
  \<open>lex-num\<close> calls \<open>string->number\<close> of the host, here the parameter \<open>s2n\<close>
  (\<open>None\<close> is \<open>#f\<close>).
\<close>

definition lex_num :: "(string \<Rightarrow> 'n option) \<Rightarrow> string \<Rightarrow> 'n token option" where
  "lex_num s2n word = (case s2n word of Some num \<Rightarrow> Some (make_token TN (Num num)) | None \<Rightarrow> None)"

definition lex_op :: "string \<Rightarrow> 'n token option" where
  "lex_op word =
     (if length word = 1 \<and> word ! 0 \<in> set ''+-*/'' then Some (make_token TO (Sym word))
      else None)"

definition lex_paren :: "string \<Rightarrow> 'n token option" where
  "lex_paren word =
     (if \<not> length word = 1 then None
      else if word ! 0 = CHR ''('' then Some (make_token TLP (Str word))
      else if word ! 0 = CHR '')'' then Some (make_token TRP (Str word))
      else None)"

text \<open>
  The loop of \<open>lex-words\<close>: \<open>tokens\<close> collects the tokens newest first and is reversed
  at the end. In its last branch the source evaluates the arguments of
  \<open>(error 'lex-line "invalid token" word)\<close>; no variable \<open>word\<close> is bound there (the
  parameters in scope are \<open>line\<close>, \<open>words\<close> and \<open>w\<close>), so the run ends with the
  unbound-variable error before \<open>error\<close> is called.
\<close>

fun lex_words :: "(string \<Rightarrow> 'n option) \<Rightarrow> 'n token list \<Rightarrow> string list \<Rightarrow> error + 'n token list" where
  "lex_words s2n tokens [] = Inr (rev tokens)"
| "lex_words s2n tokens (w # ws) =
     (case lex_num s2n w of
        Some tok \<Rightarrow> lex_words s2n (tok # tokens) ws
      | None \<Rightarrow>
          (case lex_op w of
             Some tok \<Rightarrow> lex_words s2n (tok # tokens) ws
           | None \<Rightarrow>
               (case lex_paren w of
                  Some tok \<Rightarrow> lex_words s2n (tok # tokens) ws
                | None \<Rightarrow> Inl (UnboundVariable ''word''))))"

definition lex_line :: "(string \<Rightarrow> 'n option) \<Rightarrow> string \<Rightarrow> error + 'n token list" where
  "lex_line s2n line =
     lex_words s2n [] (string_tokenize line [CHR '' '', CHR 0x09, CHR 0x0A] ''+-*/()'')"

text \<open>
  Modelled from the spec: the numeric conversion of the host, for the literals of
  the grammar of the source (\<open>N -> [0-9]+\<close>): a non-empty word of decimal digits is
  its value, any other word is not a number here.
\<close>

definition digit_val :: "char \<Rightarrow> int" where
  "digit_val c = int (of_char c) - 48"

definition is_digit :: "char \<Rightarrow> bool" where
  "is_digit c = (48 \<le> (of_char c :: nat) \<and> (of_char c :: nat) \<le> 57)"

definition string_to_number :: "string \<Rightarrow> int option" where
  "string_to_number word =
     (if word \<noteq> [] \<and> list_all is_digit word
      then Some (foldl (\<lambda>acc c. 10 * acc + digit_val c) 0 word)
      else None)"

section \<open>xpr-fix.scm: the token cursor\<close>

text \<open>
  The source keeps the cursor in two variables, \<open>tok-head\<close> (the current token, or
  \<open>#f\<close> at the end) and \<open>tok-tail\<close>. The model passes the list of the tokens not yet
  consumed, \<open>tok-head\<close> first: \<open>init!\<close> is the identity on this list, \<open>(next)\<close> is
  its head, \<open>(done?)\<close> holds when it is empty, and \<open>consume!\<close> drops the head (and
  leaves the empty list empty).
\<close>

definition next_tok :: "'n token list \<Rightarrow> 'n token option" where
  "next_tok toks = (case toks of [] \<Rightarrow> None | x # _ \<Rightarrow> Some x)"

definition consume :: "'n token list \<Rightarrow> 'n token list" where
  "consume toks = tl toks"

text \<open>
  \<open>match-type?\<close> and \<open>match-value?\<close> read a field of \<open>(next)\<close>; they are given the
  current token. Where the source can reach them with \<open>(next)\<close> being \<open>#f\<close>, the
  accessor fails and the model returns \<open>BadArgumentType\<close>.
\<close>

definition match_type :: "'n token \<Rightarrow> tok_type \<Rightarrow> bool" where
  "match_type x ty = (tok_t x = ty)"

definition match_value :: "'n token \<Rightarrow> 'n tok_val \<Rightarrow> bool" where
  "match_value x v = (tok_v x = v)"

definition parse_num :: "'n token list \<Rightarrow> error + ('n tok_val \<times> 'n token list)" where
  "parse_num toks =
     (case next_tok toks of
        None \<Rightarrow> Inl BadArgumentType
      | Some x \<Rightarrow> if match_type x TN then Inr (tok_v x, consume toks) else Inl ParseNumFailed)"

definition parse_op :: "'n token list \<Rightarrow> error + ('n tok_val \<times> 'n token list)" where
  "parse_op toks =
     (case next_tok toks of
        None \<Rightarrow> Inl BadArgumentType
      | Some x \<Rightarrow> if match_type x TO then Inr (tok_v x, consume toks) else Inl ParseOpFailed)"

lemma parse_num_length:
  "parse_num toks = Inr (v, r) \<Longrightarrow> length r < length toks"
  by (cases toks) (auto simp: parse_num_def next_tok_def consume_def split: if_splits)

lemma parse_op_length:
  "parse_op toks = Inr (v, r) \<Longrightarrow> length r < length toks"
  by (cases toks) (auto simp: parse_op_def next_tok_def consume_def split: if_splits)

section \<open>xpr-fix.scm: prefix parser\<close>

text \<open>
  \<open>parse-expr!\<close> of \<open>parse-prefix\<close>, for the grammar \<open>E -> N | O E E\<close>. The
  source builds the node with \<open>(list (parse-op!) (parse-expr!) (parse-expr!))\<close>; the
  model evaluates the arguments from left to right, so that the operator is consumed
  first and the first expression parsed is the left child. The same holds for
  \<open>(list (parse-op!) ...)\<close> in \<open>parse-postfix\<close> and in \<open>R!\<close> of \<open>parse-infix-rnn\<close>.
\<close>

function prefix_parse_expr :: "'n token list \<Rightarrow> error + ('n tree \<times> 'n token list)" where
  "prefix_parse_expr toks =
     (case next_tok toks of
        None \<Rightarrow> Inl MissingTokens
      | Some x \<Rightarrow>
          if match_type x TN then
            (case parse_num toks of Inl e \<Rightarrow> Inl e | Inr (v, r) \<Rightarrow> Inr (Leaf v, r))
          else if match_type x TO then
            (case parse_op toks of
               Inl e \<Rightarrow> Inl e
             | Inr (op, r0) \<Rightarrow>
                 (case prefix_parse_expr r0 of
                    Inl e \<Rightarrow> Inl e
                  | Inr (l, r1) \<Rightarrow>
                      (case prefix_parse_expr r1 of
                         Inl e \<Rightarrow> Inl e
                       | Inr (r, r2) \<Rightarrow> Inr (Node op l r, r2))))
          else Inl InvalidToken)"
  by pat_completeness auto

lemma prefix_parse_expr_length:
  "prefix_parse_expr_dom toks \<Longrightarrow> prefix_parse_expr toks = Inr (t, r) \<Longrightarrow> length r < length toks"
proof (induction toks arbitrary: t r rule: prefix_parse_expr.pinduct)
  case (1 toks)
  note ps = prefix_parse_expr.psimps[OF "1.hyps"]
  show ?case
  proof (cases "next_tok toks")
    case None
    with ps "1.prems" show ?thesis by simp
  next
    case (Some x)
    show ?thesis
    proof (cases "match_type x TN")
      case True
      with Some ps "1.prems" show ?thesis
        by (auto split: sum.splits dest: parse_num_length)
    next
      case False
      show ?thesis
      proof (cases "match_type x TO")
        case notop: False
        with False Some ps "1.prems" show ?thesis by simp
      next
        case True
        from "1.prems" ps Some False True obtain op r0 l r1 rr where
          a: "parse_op toks = Inr (op, r0)" and b: "prefix_parse_expr r0 = Inr (l, r1)"
          and c: "prefix_parse_expr r1 = Inr (rr, r)"
          by (auto split: sum.splits)
        from "1.IH"(1)[OF Some False True a refl b] have "length r1 < length r0" .
        moreover from "1.IH"(2)[OF Some False True a refl b refl c] have "length r < length r1" .
        ultimately show ?thesis using parse_op_length[OF a] by simp
      qed
    qed
  qed
qed

termination prefix_parse_expr
proof (relation "measure length", goal_cases)
  case 1
  show ?case by simp
next
  case (2 toks x op_r0 op r0)
  then show ?case using parse_op_length[of toks op r0] by simp
next
  case (3 toks x op_r0 op r0 lr l r1)
  then show ?case
    using parse_op_length[of toks op r0] prefix_parse_expr_length[of r0 l r1] by simp
qed

declare prefix_parse_expr.simps [simp del]

definition is_done :: "'n token list \<Rightarrow> bool" where
  "is_done toks = (next_tok toks = None)"

definition parse_prefix_tokens :: "'n token list \<Rightarrow> error + 'n tree" where
  "parse_prefix_tokens toks =
     (case prefix_parse_expr toks of
        Inl e \<Rightarrow> Inl e
      | Inr (tree, r) \<Rightarrow> if is_done r then Inr tree else Inl ExtraTokens)"

definition parse_prefix :: "(string \<Rightarrow> 'n option) \<Rightarrow> string \<Rightarrow> error + 'n tree" where
  "parse_prefix s2n line =
     (case lex_line s2n line of Inl e \<Rightarrow> Inl e | Inr toks \<Rightarrow> parse_prefix_tokens toks)"

section \<open>xpr-fix.scm: postfix parser\<close>

text \<open>
  \<open>parse-expr!\<close> of \<open>parse-postfix\<close>, for the grammar \<open>E -> N | E E O\<close>: a loop over
  the tokens with the stack \<open>stk\<close> of finished trees, newest first. On an operator the
  source tests \<open>(or (null? stk) (null? (cdr stk)))\<close> before it pops \<open>(car stk)\<close>
  and \<open>(cadr stk)\<close>.
\<close>

function postfix_parse_expr :: "'n tree list \<Rightarrow> 'n token list \<Rightarrow> error + 'n tree list" where
  "postfix_parse_expr stk toks =
     (case next_tok toks of
        None \<Rightarrow> Inr stk
      | Some x \<Rightarrow>
          if match_type x TN then
            (case parse_num toks of
               Inl e \<Rightarrow> Inl e
             | Inr (v, r) \<Rightarrow> postfix_parse_expr (Leaf v # stk) r)
          else if match_type x TO then
            (case stk of
               t1 # t2 # below \<Rightarrow>
                 (case parse_op toks of
                    Inl e \<Rightarrow> Inl e
                  | Inr (op, r) \<Rightarrow> postfix_parse_expr (Node op t2 t1 # below) r)
             | _ \<Rightarrow> Inl MissingArguments)
          else Inl InvalidToken)"
  by pat_completeness auto
termination
proof (relation "measure (\<lambda>(stk, toks). length toks)", goal_cases)
  case 1
  show ?case by simp
next
  case (2 stk toks x v_r v r)
  then show ?case using parse_num_length[of toks v r] by simp
next
  case (3 stk toks x t1 rest t2 below op_r op r)
  then show ?case using parse_op_length[of toks op r] by simp
qed

declare postfix_parse_expr.simps [simp del]

definition postfix_result :: "'n tree list \<Rightarrow> error + 'n tree" where
  "postfix_result stk =
     (case stk of
        [] \<Rightarrow> Inl MissingTokens
      | t1 # below \<Rightarrow> if below \<noteq> [] then Inl ExtraTokens else Inr t1)"

definition parse_postfix_tokens :: "'n token list \<Rightarrow> error + 'n tree" where
  "parse_postfix_tokens toks =
     (case postfix_parse_expr [] toks of Inl e \<Rightarrow> Inl e | Inr stk \<Rightarrow> postfix_result stk)"

definition parse_postfix :: "(string \<Rightarrow> 'n option) \<Rightarrow> string \<Rightarrow> error + 'n tree" where
  "parse_postfix s2n line =
     (case lex_line s2n line of Inl e \<Rightarrow> Inl e | Inr toks \<Rightarrow> parse_postfix_tokens toks)"

section \<open>xpr-fix.scm: infix, right-associative, no precedence (RNN)\<close>

text \<open>
  \<open>E!\<close> and \<open>R!\<close> of \<open>parse-infix-rnn\<close>, for the grammar \<open>E -> N R\<close>, \<open>R -> e | O E\<close>.
  \<open>R!\<close> returns \<open>#f\<close> (here \<open>None\<close>) or the two-element list of the operator and the
  right operand.
\<close>

function rnn_E :: "'n token list \<Rightarrow> error + ('n tree \<times> 'n token list)"
  and rnn_R :: "'n token list \<Rightarrow> error + (('n tok_val \<times> 'n tree) option \<times> 'n token list)" where
  "rnn_E toks =
     (case next_tok toks of
        None \<Rightarrow> Inl MissingTokens
      | Some x \<Rightarrow>
          if match_type x TN then
            (case parse_num toks of
               Inl e \<Rightarrow> Inl e
             | Inr (left, r0) \<Rightarrow>
                 (case rnn_R r0 of
                    Inl e \<Rightarrow> Inl e
                  | Inr (right, r1) \<Rightarrow>
                      (case right of
                         None \<Rightarrow> Inr (Leaf left, r1)
                       | Some (op, rt) \<Rightarrow> Inr (Node op (Leaf left) rt, r1))))
          else Inl InvalidToken)"
| "rnn_R toks =
     (case next_tok toks of
        None \<Rightarrow> Inr (None, toks)
      | Some x \<Rightarrow>
          if match_type x TO then
            (case parse_op toks of
               Inl e \<Rightarrow> Inl e
             | Inr (op, r0) \<Rightarrow>
                 (case rnn_E r0 of
                    Inl e \<Rightarrow> Inl e
                  | Inr (e, r1) \<Rightarrow> Inr (Some (op, e), r1)))
          else Inl InvalidToken)"
  by pat_completeness auto
termination
proof (relation "measure (\<lambda>a. case a of Inl toks \<Rightarrow> length toks | Inr toks \<Rightarrow> length toks)", goal_cases)
  case 1
  show ?case by simp
next
  case (2 toks x v_r v r)
  then show ?case using parse_num_length[of toks v r] by simp
next
  case (3 toks x op_r op r)
  then show ?case using parse_op_length[of toks op r] by simp
qed

declare rnn_E.simps [simp del] rnn_R.simps [simp del]

definition parse_infix_rnn_tokens :: "'n token list \<Rightarrow> error + 'n tree" where
  "parse_infix_rnn_tokens toks =
     (case rnn_E toks of
        Inl e \<Rightarrow> Inl e
      | Inr (tree, r) \<Rightarrow> if is_done r then Inr tree else Inl ExtraTokens)"

definition parse_infix_rnn :: "(string \<Rightarrow> 'n option) \<Rightarrow> string \<Rightarrow> error + 'n tree" where
  "parse_infix_rnn s2n line =
     (case lex_line s2n line of Inl e \<Rightarrow> Inl e | Inr toks \<Rightarrow> parse_infix_rnn_tokens toks)"

section \<open>xpr-fix.scm: infix, right-associative, with precedence (RPN)\<close>

text \<open>
  \<open>FACT!\<close>, \<open>TERM!\<close> and \<open>EXPR!\<close> of \<open>parse-infix-rpn\<close>, for the grammar
  \<open>EXPR -> TERM | TERM [+,-] EXPR\<close>, \<open>TERM -> FACT | FACT [*,/] TERM\<close>, \<open>FACT -> NUM\<close>.
\<close>

definition rpn_FACT :: "'n token list \<Rightarrow> error + ('n tree \<times> 'n token list)" where
  "rpn_FACT toks =
     (case next_tok toks of
        None \<Rightarrow> Inl MissingTokens
      | Some x \<Rightarrow>
          if match_type x TN then
            (case parse_num toks of Inl e \<Rightarrow> Inl e | Inr (v, r) \<Rightarrow> Inr (Leaf v, r))
          else Inl InvalidToken)"

lemma rpn_FACT_length:
  "rpn_FACT toks = Inr (t, r) \<Longrightarrow> length r < length toks"
  by (auto simp: rpn_FACT_def split: option.splits if_splits sum.splits dest: parse_num_length)

function rpn_TERM :: "'n token list \<Rightarrow> error + ('n tree \<times> 'n token list)" where
  "rpn_TERM toks =
     (case next_tok toks of
        None \<Rightarrow> Inl MissingTokens
      | Some x \<Rightarrow>
          (case rpn_FACT toks of
             Inl e \<Rightarrow> Inl e
           | Inr (fct, r0) \<Rightarrow>
               (case next_tok r0 of
                  None \<Rightarrow> Inr (fct, r0)
                | Some y \<Rightarrow>
                    if match_value y (Sym ''*'') \<or> match_value y (Sym ''/'') then
                      (case parse_op r0 of
                         Inl e \<Rightarrow> Inl e
                       | Inr (op, r1) \<Rightarrow>
                           (case rpn_TERM r1 of
                              Inl e \<Rightarrow> Inl e
                            | Inr (t, r2) \<Rightarrow> Inr (Node op fct t, r2)))
                    else Inr (fct, r0))))"
  by pat_completeness auto
termination
proof (relation "measure length", goal_cases)
  case 1
  show ?case by simp
next
  case (2 toks x f_r fct r0 y op_r op r1)
  then show ?case using rpn_FACT_length[of toks fct r0] parse_op_length[of r0 op r1] by simp
qed

declare rpn_TERM.simps [simp del]

lemma rpn_TERM_length:
  "rpn_TERM toks = Inr (t, r) \<Longrightarrow> length r < length toks"
proof (induction toks arbitrary: t r rule: rpn_TERM.induct)
  case (1 toks)
  from "1.prems" obtain x fct r0 where x: "next_tok toks = Some x"
    and f: "rpn_FACT toks = Inr (fct, r0)"
    by (subst (asm) rpn_TERM.simps) (auto split: option.splits sum.splits)
  note fl = rpn_FACT_length[OF f]
  show ?case
  proof (cases "next_tok r0")
    case None
    with "1.prems" x f fl show ?thesis
      by (subst (asm) rpn_TERM.simps) simp
  next
    case (Some y)
    show ?thesis
    proof (cases "match_value y (Sym ''*'') \<or> match_value y (Sym ''/'')")
      case False
      with "1.prems" x f fl Some show ?thesis
        by (subst (asm) rpn_TERM.simps) simp
    next
      case True
      with "1.prems" x f Some obtain op r1 u where
        o: "parse_op r0 = Inr (op, r1)" and u: "rpn_TERM r1 = Inr (u, r)"
        by (subst (asm) rpn_TERM.simps) (auto split: sum.splits)
      from "1.IH"[OF x f refl Some True o refl u] parse_op_length[OF o] fl
      show ?thesis by simp
    qed
  qed
qed

function rpn_EXPR :: "'n token list \<Rightarrow> error + ('n tree \<times> 'n token list)" where
  "rpn_EXPR toks =
     (case next_tok toks of
        None \<Rightarrow> Inl MissingTokens
      | Some x \<Rightarrow>
          (case rpn_TERM toks of
             Inl e \<Rightarrow> Inl e
           | Inr (trm, r0) \<Rightarrow>
               (case next_tok r0 of
                  None \<Rightarrow> Inr (trm, r0)
                | Some y \<Rightarrow>
                    if match_value y (Sym ''+'') \<or> match_value y (Sym ''-'') then
                      (case parse_op r0 of
                         Inl e \<Rightarrow> Inl e
                       | Inr (op, r1) \<Rightarrow>
                           (case rpn_EXPR r1 of
                              Inl e \<Rightarrow> Inl e
                            | Inr (t, r2) \<Rightarrow> Inr (Node op trm t, r2)))
                    else Inl InvalidToken)))"
  by pat_completeness auto
termination
proof (relation "measure length", goal_cases)
  case 1
  show ?case by simp
next
  case (2 toks x f_r trm r0 y op_r op r1)
  then show ?case using rpn_TERM_length[of toks trm r0] parse_op_length[of r0 op r1] by simp
qed

declare rpn_EXPR.simps [simp del]

definition parse_infix_rpn_tokens :: "'n token list \<Rightarrow> error + 'n tree" where
  "parse_infix_rpn_tokens toks =
     (case rpn_EXPR toks of
        Inl e \<Rightarrow> Inl e
      | Inr (tree, r) \<Rightarrow> if is_done r then Inr tree else Inl ExtraTokens)"

definition parse_infix_rpn :: "(string \<Rightarrow> 'n option) \<Rightarrow> string \<Rightarrow> error + 'n tree" where
  "parse_infix_rpn s2n line =
     (case lex_line s2n line of Inl e \<Rightarrow> Inl e | Inr toks \<Rightarrow> parse_infix_rpn_tokens toks)"

section \<open>xpr-fix.scm: infix, left-associative, with precedence and parentheses (LPP)\<close>

text \<open>
  \<open>E!\<close>, \<open>EL!\<close>, \<open>T!\<close>, \<open>TL!\<close> and \<open>F!\<close> of \<open>parse-infix-lpp\<close>. They read the
  tokens in reverse order, so \<open>F!\<close> meets the closing parenthesis \<open>rp\<close> first and
  expects \<open>lp\<close> after the expression. \<open>EL!\<close> and \<open>TL!\<close> return \<open>#f\<close> (here \<open>None\<close>)
  or the two-element list of an operator and a tree. After \<open>(E!)\<close>, \<open>F!\<close> calls
  \<open>(match-type? 'lp)\<close> without a test of \<open>(done?)\<close>: at the end of the tokens the
  accessor \<open>tok-t\<close> is applied to \<open>#f\<close>.
\<close>

function lpp_E :: "'n token list \<Rightarrow> error + ('n tree \<times> 'n token list)"
  and lpp_EL :: "'n token list \<Rightarrow> error + (('n tok_val \<times> 'n tree) option \<times> 'n token list)"
  and lpp_T :: "'n token list \<Rightarrow> error + ('n tree \<times> 'n token list)"
  and lpp_TL :: "'n token list \<Rightarrow> error + (('n tok_val \<times> 'n tree) option \<times> 'n token list)"
  and lpp_F :: "'n token list \<Rightarrow> error + ('n tree \<times> 'n token list)" where
  "lpp_E toks =
     (case next_tok toks of
        None \<Rightarrow> Inl MissingTokens
      | Some x \<Rightarrow>
          (case lpp_T toks of
             Inl e \<Rightarrow> Inl e
           | Inr (t, r0) \<Rightarrow>
               (case lpp_EL r0 of
                  Inl e \<Rightarrow> Inl e
                | Inr (el, r1) \<Rightarrow>
                    (case el of
                       None \<Rightarrow> Inr (t, r1)
                     | Some (op, u) \<Rightarrow> Inr (Node op t u, r1)))))"
| "lpp_EL toks =
     (case next_tok toks of
        None \<Rightarrow> Inr (None, toks)
      | Some x \<Rightarrow>
          if match_value x (Sym ''+'') \<or> match_value x (Sym ''-'') then
            (case parse_op toks of
               Inl e \<Rightarrow> Inl e
             | Inr (op, r0) \<Rightarrow>
                 (case lpp_T r0 of
                    Inl e \<Rightarrow> Inl e
                  | Inr (t, r1) \<Rightarrow>
                      (case lpp_EL r1 of
                         Inl e \<Rightarrow> Inl e
                       | Inr (el, r2) \<Rightarrow>
                           (case el of
                              None \<Rightarrow> Inr (Some (op, t), r2)
                            | Some (op2, u) \<Rightarrow> Inr (Some (op, Node op2 t u), r2)))))
          else Inr (None, toks))"
| "lpp_T toks =
     (case next_tok toks of
        None \<Rightarrow> Inl MissingTokens
      | Some x \<Rightarrow>
          (case lpp_F toks of
             Inl e \<Rightarrow> Inl e
           | Inr (f, r0) \<Rightarrow>
               (case lpp_TL r0 of
                  Inl e \<Rightarrow> Inl e
                | Inr (tl0, r1) \<Rightarrow>
                    (case tl0 of
                       None \<Rightarrow> Inr (f, r1)
                     | Some (op, u) \<Rightarrow> Inr (Node op f u, r1)))))"
| "lpp_TL toks =
     (case next_tok toks of
        None \<Rightarrow> Inr (None, toks)
      | Some x \<Rightarrow>
          if match_value x (Sym ''*'') \<or> match_value x (Sym ''/'') then
            (case parse_op toks of
               Inl e \<Rightarrow> Inl e
             | Inr (op, r0) \<Rightarrow>
                 (case lpp_F r0 of
                    Inl e \<Rightarrow> Inl e
                  | Inr (f, r1) \<Rightarrow>
                      (case lpp_TL r1 of
                         Inl e \<Rightarrow> Inl e
                       | Inr (tl0, r2) \<Rightarrow>
                           (case tl0 of
                              None \<Rightarrow> Inr (Some (op, f), r2)
                            | Some (op2, u) \<Rightarrow> Inr (Some (op, Node op2 f u), r2)))))
          else Inr (None, toks))"
| "lpp_F toks =
     (case next_tok toks of
        None \<Rightarrow> Inl MissingTokens
      | Some x \<Rightarrow>
          if match_type x TN then
            (case parse_num toks of Inl e \<Rightarrow> Inl e | Inr (v, r) \<Rightarrow> Inr (Leaf v, r))
          else if match_type x TRP then
            (case lpp_E (consume toks) of
               Inl e \<Rightarrow> Inl e
             | Inr (e, r1) \<Rightarrow>
                 (case next_tok r1 of
                    None \<Rightarrow> Inl BadArgumentType
                  | Some y \<Rightarrow>
                      if match_type y TLP then Inr (e, consume r1)
                      else Inl (UnbalancedParens MissingOpen)))
          else if match_type x TLP then Inl (UnbalancedParens InvalidOpen)
          else Inl InvalidToken)"
  by pat_completeness auto

lemma lpp_length:
  "lpp_E_lpp_EL_lpp_T_lpp_TL_lpp_F_dom (Inl (Inl (a :: 'n token list))) \<Longrightarrow>
     \<forall>t r. lpp_E a = Inr (t, r) \<longrightarrow> length r < length a"
  "lpp_E_lpp_EL_lpp_T_lpp_TL_lpp_F_dom (Inl (Inr (b :: 'n token list))) \<Longrightarrow>
     \<forall>t r. lpp_EL b = Inr (t, r) \<longrightarrow> length r \<le> length b"
  "lpp_E_lpp_EL_lpp_T_lpp_TL_lpp_F_dom (Inr (Inl (c :: 'n token list))) \<Longrightarrow>
     \<forall>t r. lpp_T c = Inr (t, r) \<longrightarrow> length r < length c"
  "lpp_E_lpp_EL_lpp_T_lpp_TL_lpp_F_dom (Inr (Inr (Inl (d :: 'n token list)))) \<Longrightarrow>
     \<forall>t r. lpp_TL d = Inr (t, r) \<longrightarrow> length r \<le> length d"
  "lpp_E_lpp_EL_lpp_T_lpp_TL_lpp_F_dom (Inr (Inr (Inr (e :: 'n token list)))) \<Longrightarrow>
     \<forall>t r. lpp_F e = Inr (t, r) \<longrightarrow> length r < length e"
proof (induction a and b and c and d and e rule: lpp_E_lpp_EL_lpp_T_lpp_TL_lpp_F.pinduct)
  case (1 toks)
  note ps = lpp_E.psimps[OF "1.hyps"]
  show ?case
  proof (intro allI impI)
    fix t r
    assume eq: "lpp_E toks = Inr (t, r)"
    from eq ps obtain x t0 r0 el where x: "next_tok toks = Some x"
      and T: "lpp_T toks = Inr (t0, r0)" and EL: "lpp_EL r0 = Inr (el, r)"
      by (auto split: option.splits sum.splits prod.splits)
    from "1.IH"(1)[OF x] T have "length r0 < length toks" by blast
    moreover from "1.IH"(2)[OF x T refl] EL have "length r \<le> length r0" by blast
    ultimately show "length r < length toks" by simp
  qed
next
  case (2 toks)
  note ps = lpp_EL.psimps[OF "2.hyps"]
  show ?case
  proof (intro allI impI)
    fix t r
    assume eq: "lpp_EL toks = Inr (t, r)"
    show "length r \<le> length toks"
    proof (cases "next_tok toks")
      case None
      with eq ps show ?thesis by simp
    next
      case (Some x)
      show ?thesis
      proof (cases "match_value x (Sym ''+'') \<or> match_value x (Sym ''-'')")
        case False
        with Some eq ps show ?thesis by auto
      next
        case True
        with Some eq ps obtain op r0 t1 r1 el where o: "parse_op toks = Inr (op, r0)"
          and T: "lpp_T r0 = Inr (t1, r1)" and EL: "lpp_EL r1 = Inr (el, r)"
          by (auto split: option.splits sum.splits prod.splits)
        from "2.IH"(1)[OF Some True o refl] T have "length r1 < length r0" by blast
        moreover from "2.IH"(2)[OF Some True o refl T refl] EL have "length r \<le> length r1" by blast
        ultimately show ?thesis using parse_op_length[OF o] by simp
      qed
    qed
  qed
next
  case (3 toks)
  note ps = lpp_T.psimps[OF "3.hyps"]
  show ?case
  proof (intro allI impI)
    fix t r
    assume eq: "lpp_T toks = Inr (t, r)"
    from eq ps obtain x f0 r0 tl0 where x: "next_tok toks = Some x"
      and F: "lpp_F toks = Inr (f0, r0)" and TL: "lpp_TL r0 = Inr (tl0, r)"
      by (auto split: option.splits sum.splits prod.splits)
    from "3.IH"(1)[OF x] F have "length r0 < length toks" by blast
    moreover from "3.IH"(2)[OF x F refl] TL have "length r \<le> length r0" by blast
    ultimately show "length r < length toks" by simp
  qed
next
  case (4 toks)
  note ps = lpp_TL.psimps[OF "4.hyps"]
  show ?case
  proof (intro allI impI)
    fix t r
    assume eq: "lpp_TL toks = Inr (t, r)"
    show "length r \<le> length toks"
    proof (cases "next_tok toks")
      case None
      with eq ps show ?thesis by simp
    next
      case (Some x)
      show ?thesis
      proof (cases "match_value x (Sym ''*'') \<or> match_value x (Sym ''/'')")
        case False
        with Some eq ps show ?thesis by auto
      next
        case True
        with Some eq ps obtain op r0 f1 r1 tl0 where o: "parse_op toks = Inr (op, r0)"
          and F: "lpp_F r0 = Inr (f1, r1)" and TL: "lpp_TL r1 = Inr (tl0, r)"
          by (auto split: option.splits sum.splits prod.splits)
        from "4.IH"(1)[OF Some True o refl] F have "length r1 < length r0" by blast
        moreover from "4.IH"(2)[OF Some True o refl F refl] TL have "length r \<le> length r1" by blast
        ultimately show ?thesis using parse_op_length[OF o] by simp
      qed
    qed
  qed
next
  case (5 toks)
  note ps = lpp_F.psimps[OF "5.hyps"]
  show ?case
  proof (intro allI impI)
    fix t r
    assume eq: "lpp_F toks = Inr (t, r)"
    from eq ps obtain x where x: "next_tok toks = Some x"
      by (auto split: option.splits)
    then have ne: "toks \<noteq> []" by (auto simp: next_tok_def)
    show "length r < length toks"
    proof (cases "match_type x TN")
      case True
      with x eq ps show ?thesis by (auto split: sum.splits dest: parse_num_length)
    next
      case False
      show ?thesis
      proof (cases "match_type x TRP")
        case notrp: False
        with False x eq ps show ?thesis by (auto split: if_splits)
      next
        case True
        with False x eq ps obtain e1 r1 where E: "lpp_E (consume toks) = Inr (e1, r1)"
          and r: "r = consume r1"
          by (auto split: option.splits sum.splits prod.splits if_splits)
        from "5.IH"[OF x False True] E have "length r1 < length (consume toks)" by blast
        with r ne show ?thesis by (simp add: consume_def)
      qed
    qed
  qed
qed

termination lpp_E
proof (relation "measure (\<lambda>a. case a of
    Inl (Inl t) \<Rightarrow> 3 * length t + 2
  | Inl (Inr t) \<Rightarrow> 3 * length t
  | Inr (Inl t) \<Rightarrow> 3 * length t + 1
  | Inr (Inr (Inl t)) \<Rightarrow> 3 * length t
  | Inr (Inr (Inr t)) \<Rightarrow> 3 * length t)", goal_cases)
  case 1
  show ?case by simp
next
  case (2 toks x)
  show ?case by simp
next
  case (3 toks x tr t r0)
  then show ?case using lpp_length(3)[of toks] by auto
next
  case (4 toks x opr op r0)
  then show ?case using parse_op_length[of toks op r0] by simp
next
  case (5 toks x opr op r0 tr t r1)
  then show ?case using parse_op_length[of toks op r0] lpp_length(3)[of r0] by auto
next
  case (6 toks x)
  then show ?case by simp
next
  case (7 toks x fr f r0)
  then show ?case using lpp_length(5)[of toks] by auto
next
  case (8 toks x opr op r0)
  then show ?case using parse_op_length[of toks op r0] by simp
next
  case (9 toks x opr op r0 fr f r1)
  then show ?case using parse_op_length[of toks op r0] lpp_length(5)[of r0] by auto
next
  case (10 toks x)
  then show ?case by (cases toks) (auto simp: consume_def next_tok_def)
qed

declare lpp_E.simps [simp del] lpp_EL.simps [simp del] lpp_T.simps [simp del]
  lpp_TL.simps [simp del] lpp_F.simps [simp del]

definition parse_infix_lpp_tokens :: "'n token list \<Rightarrow> error + 'n tree" where
  "parse_infix_lpp_tokens toks =
     (case lpp_E (rev toks) of
        Inl e \<Rightarrow> Inl e
      | Inr (tree, r) \<Rightarrow> if is_done r then Inr (tree_invert tree) else Inl ExtraTokens)"

definition parse_infix_lpp :: "(string \<Rightarrow> 'n option) \<Rightarrow> string \<Rightarrow> error + 'n tree" where
  "parse_infix_lpp s2n line =
     (case lex_line s2n line of Inl e \<Rightarrow> Inl e | Inr toks \<Rightarrow> parse_infix_lpp_tokens toks)"

section \<open>lexer.h: tokens, lexer and cursor of the C parsers\<close>

datatype TokenType =
    TOK_VAL | TOK_EQUALS | TOK_PLUS | TOK_MINUS | TOK_TIMES | TOK_DIVIDE
  | TOK_EXPONENT | TOK_PAREN_L | TOK_PAREN_R | TOK_END

text \<open>
  \<open>word\<close> is the text of the token. The end token \<open>tok_end\<close> has the null pointer
  there; no function of the parsers reads the word of a token of type \<open>TOK_END\<close>, and
  the model gives it the empty word.
\<close>

record Token =
  type :: TokenType
  word :: string

text \<open>
  \<open>error\<close> of \<open>error.h\<close> prints its message and exits:
  \<^item> \<open>E_expected t u\<close>: "expected t, got u" (\<open>expect\<close>);
  \<^item> \<open>E_unexpected_token\<close>: "unexpected token" (\<open>fact\<close>);
  \<^item> \<open>E_invalid_token\<close>: "invalid token" (\<open>P\<close>);
  \<^item> \<open>E_invalid_unary_operator\<close>, \<open>E_invalid_binary_operator\<close>: \<open>get_unary_prec\<close>,
    \<open>get_binary_prec\<close>;
  \<^item> \<open>E_assertion_failed\<close>: the \<open>assert\<close> of \<open>AST_print\<close>;
  \<^item> \<open>E_undefined_behaviour\<close>: the program leaves what C defines (see \<open>lex_loop\<close>).
\<close>

datatype c_error =
    E_expected TokenType TokenType
  | E_unexpected_token
  | E_invalid_token
  | E_invalid_unary_operator
  | E_invalid_binary_operator
  | E_assertion_failed
  | E_undefined_behaviour

definition isspace :: "char \<Rightarrow> bool" where
  "isspace c = (c \<in> set [CHR 0x20, CHR 0x09, CHR 0x0A, CHR 0x0B, CHR 0x0C, CHR 0x0D])"

definition op_chars :: string where
  "op_chars = ''=+-*/^()''"

definition op_type :: "char \<Rightarrow> TokenType" where
  "op_type c =
     (if c = CHR ''='' then TOK_EQUALS
      else if c = CHR ''+'' then TOK_PLUS
      else if c = CHR ''-'' then TOK_MINUS
      else if c = CHR ''*'' then TOK_TIMES
      else if c = CHR ''/'' then TOK_DIVIDE
      else if c = CHR ''^'' then TOK_EXPONENT
      else if c = CHR ''('' then TOK_PAREN_L
      else TOK_PAREN_R)"

definition is_value_char :: "char \<Rightarrow> bool" where
  "is_value_char c = (\<not> isspace c \<and> c \<notin> set op_chars)"

text \<open>
  The loop of \<open>lex_string\<close> over the characters before the terminating zero; \<open>toks\<close>
  are the tokens appended so far. After the white space is skipped the source calls
  \<open>strchr(op_chars, *str)\<close>; when only white space was left, \<open>*str\<close> is the
  terminator, which \<open>strchr\<close> finds at the end of \<open>op_chars\<close>: the operator branch
  runs with no case of the \<open>switch\<close> taken and moves \<open>str\<close> past the terminator.
\<close>

function lex_loop :: "string \<Rightarrow> Token list \<Rightarrow> c_error + Token list" where
  "lex_loop str toks =
     (if str = [] then Inr toks
      else
        (case dropWhile isspace str of
           [] \<Rightarrow> Inl E_undefined_behaviour
         | c # rest \<Rightarrow>
             if c \<in> set op_chars then
               lex_loop rest (toks @ [\<lparr>type = op_type c, word = [c]\<rparr>])
             else
               lex_loop (dropWhile is_value_char (c # rest))
                 (toks @ [\<lparr>type = TOK_VAL, word = takeWhile is_value_char (c # rest)\<rparr>])))"
  by pat_completeness auto

lemma dropWhile_isspace_Cons:
  "dropWhile isspace str = c # rest \<Longrightarrow> \<not> isspace c \<and> length rest < length str"
proof -
  assume a: "dropWhile isspace str = c # rest"
  have "length (dropWhile isspace str) \<le> length str" by (rule length_dropWhile_le)
  with a have "length rest < length str" by simp
  moreover from a have "\<not> isspace c" using hd_dropWhile[of isspace str] by auto
  ultimately show ?thesis by simp
qed

termination lex_loop
proof (relation "measure (\<lambda>(str, toks). length str)", goal_cases)
  case 1
  show ?case by simp
next
  case (2 str toks c rest)
  then show ?case using dropWhile_isspace_Cons[of str c rest] by simp
next
  case (3 str toks c rest)
  then have "is_value_char c" and l: "length rest < length str"
    using dropWhile_isspace_Cons[of str c rest] by (simp_all add: is_value_char_def)
  then have "dropWhile is_value_char (c # rest) = dropWhile is_value_char rest" by simp
  moreover have "length (dropWhile is_value_char rest) \<le> length rest"
    by (rule length_dropWhile_le)
  ultimately show ?case using l by simp
qed

declare lex_loop.simps [simp del]

definition lex_string :: "string \<Rightarrow> c_error + Token list" where
  "lex_string str = lex_loop (takeWhile (\<lambda>c. c \<noteq> CHR 0x00) str) []"

text \<open>
  The cursor is the array \<open>toks\<close> with the index \<open>next_i\<close>; the model passes the
  tokens from \<open>next_i\<close> on. \<open>next\<close> is the first of them, or \<open>tok_end\<close>.
\<close>

definition tok_end :: Token where
  "tok_end = \<lparr>type = TOK_END, word = []\<rparr>"

definition c_next :: "Token list \<Rightarrow> Token" where
  "c_next toks = (case toks of [] \<Rightarrow> tok_end | x # _ \<Rightarrow> x)"

definition c_consume :: "Token list \<Rightarrow> Token list" where
  "c_consume toks = (case toks of [] \<Rightarrow> [] | _ # rest \<Rightarrow> rest)"

definition c_expect :: "TokenType \<Rightarrow> Token list \<Rightarrow> c_error + Token list" where
  "c_expect ty toks =
     (if ty = type (c_next toks) then Inr (c_consume toks)
      else Inl (E_expected ty (type (c_next toks))))"

section \<open>infix_recur_desc.c: classic recursive descent\<close>

text \<open>
  The node of \<open>infix_recur_desc.c\<close>: a token and two pointers to subtrees, both null
  in a leaf. \<open>AST_print\<close> writes to the standard output; the model returns the text.
\<close>

datatype rd_AST = AST_make Token "rd_AST option" "rd_AST option"

fun rd_AST_print :: "rd_AST \<Rightarrow> c_error + string" where
  "rd_AST_print (AST_make tok left right) =
     (case (left, right) of
        (Some l, Some r) \<Rightarrow>
          (case rd_AST_print l of
             Inl e \<Rightarrow> Inl e
           | Inr sl \<Rightarrow>
               (case rd_AST_print r of
                  Inl e \<Rightarrow> Inl e
                | Inr sr \<Rightarrow> Inr ('' ('' @ word tok @ sl @ sr @ '')'')))
      | (None, None) \<Rightarrow> Inr ('' '' @ word tok)
      | _ \<Rightarrow> Inl E_assertion_failed)"

text \<open>
  \<open>fact\<close>, \<open>term\<close> and \<open>expr\<close>, for the grammar \<open>EXPR -> TERM ([+-] EXPR)?\<close>,
  \<open>TERM -> FACT ([*/] TERM)?\<close>, \<open>FACT -> VAL | "(" EXPR ")"\<close>. The \<open>while\<close> loops
  of \<open>term\<close> and \<open>expr\<close> are \<open>rd_term_loop\<close> and \<open>rd_expr_loop\<close>, with the
  variable \<open>left\<close> as an argument.
\<close>

function rd_fact :: "Token list \<Rightarrow> c_error + (rd_AST \<times> Token list)"
  and rd_term :: "Token list \<Rightarrow> c_error + (rd_AST \<times> Token list)"
  and rd_term_loop :: "rd_AST \<Rightarrow> Token list \<Rightarrow> c_error + (rd_AST \<times> Token list)"
  and rd_expr :: "Token list \<Rightarrow> c_error + (rd_AST \<times> Token list)"
  and rd_expr_loop :: "rd_AST \<Rightarrow> Token list \<Rightarrow> c_error + (rd_AST \<times> Token list)" where
  "rd_fact toks =
     (if type (c_next toks) = TOK_VAL then
        Inr (AST_make (c_next toks) None None, c_consume toks)
      else if type (c_next toks) = TOK_PAREN_L then
        (case rd_expr (c_consume toks) of
           Inl e \<Rightarrow> Inl e
         | Inr (ast, r) \<Rightarrow>
             (case c_expect TOK_PAREN_R r of Inl e \<Rightarrow> Inl e | Inr r' \<Rightarrow> Inr (ast, r')))
      else Inl E_unexpected_token)"
| "rd_term toks =
     (case rd_fact toks of Inl e \<Rightarrow> Inl e | Inr (left, r) \<Rightarrow> rd_term_loop left r)"
| "rd_term_loop left toks =
     (if type (c_next toks) = TOK_TIMES \<or> type (c_next toks) = TOK_DIVIDE then
        (case rd_term (c_consume toks) of
           Inl e \<Rightarrow> Inl e
         | Inr (right, r) \<Rightarrow>
             rd_term_loop (AST_make (c_next toks) (Some left) (Some right)) r)
      else Inr (left, toks))"
| "rd_expr toks =
     (case rd_term toks of Inl e \<Rightarrow> Inl e | Inr (left, r) \<Rightarrow> rd_expr_loop left r)"
| "rd_expr_loop left toks =
     (if type (c_next toks) = TOK_PLUS \<or> type (c_next toks) = TOK_MINUS then
        (case rd_expr (c_consume toks) of
           Inl e \<Rightarrow> Inl e
         | Inr (right, r) \<Rightarrow>
             rd_expr_loop (AST_make (c_next toks) (Some left) (Some right)) r)
      else Inr (left, toks))"
  by pat_completeness auto

lemma c_next_not_end:
  "type (c_next toks) \<noteq> TOK_END \<Longrightarrow> length (c_consume toks) < length toks"
  by (cases toks) (simp_all add: c_next_def c_consume_def tok_end_def)

lemma c_consume_le: "length (c_consume toks) \<le> length toks"
  by (cases toks) (simp_all add: c_consume_def)

lemma c_expect_le: "c_expect ty toks = Inr r \<Longrightarrow> length r \<le> length toks"
  using c_consume_le[of toks] by (auto simp: c_expect_def split: if_splits)

lemma rd_length:
  "rd_fact_rd_term_rd_term_loop_rd_expr_rd_expr_loop_dom (Inl (Inl a)) \<Longrightarrow>
     \<forall>t r. rd_fact a = Inr (t, r) \<longrightarrow> length r < length a"
  "rd_fact_rd_term_rd_term_loop_rd_expr_rd_expr_loop_dom (Inl (Inr b)) \<Longrightarrow>
     \<forall>t r. rd_term b = Inr (t, r) \<longrightarrow> length r < length b"
  "rd_fact_rd_term_rd_term_loop_rd_expr_rd_expr_loop_dom (Inr (Inl (l1, c))) \<Longrightarrow>
     \<forall>t r. rd_term_loop l1 c = Inr (t, r) \<longrightarrow> length r \<le> length c"
  "rd_fact_rd_term_rd_term_loop_rd_expr_rd_expr_loop_dom (Inr (Inr (Inl d))) \<Longrightarrow>
     \<forall>t r. rd_expr d = Inr (t, r) \<longrightarrow> length r < length d"
  "rd_fact_rd_term_rd_term_loop_rd_expr_rd_expr_loop_dom (Inr (Inr (Inr (l2, e)))) \<Longrightarrow>
     \<forall>t r. rd_expr_loop l2 e = Inr (t, r) \<longrightarrow> length r \<le> length e"
proof (induction a and b and l1 c and d and l2 e
    rule: rd_fact_rd_term_rd_term_loop_rd_expr_rd_expr_loop.pinduct)
  case (1 toks)
  note ps = rd_fact.psimps[OF "1.hyps"]
  show ?case
  proof (intro allI impI)
    fix t r
    assume eq: "rd_fact toks = Inr (t, r)"
    show "length r < length toks"
    proof (cases "type (c_next toks) = TOK_VAL")
      case True
      with eq ps have "r = c_consume toks" by simp
      with True show ?thesis using c_next_not_end[of toks] by simp
    next
      case False
      show ?thesis
      proof (cases "type (c_next toks) = TOK_PAREN_L")
        case notl: False
        with False eq ps show ?thesis by simp
      next
        case True
        with False eq ps obtain r1 where E: "rd_expr (c_consume toks) = Inr (t, r1)"
          and X: "c_expect TOK_PAREN_R r1 = Inr r"
          by (auto split: sum.splits)
        from "1.IH"[OF False True] E have "length r1 < length (c_consume toks)" by blast
        with c_expect_le[OF X] c_consume_le[of toks] show ?thesis by simp
      qed
    qed
  qed
next
  case (2 toks)
  note ps = rd_term.psimps[OF "2.hyps"]
  show ?case
  proof (intro allI impI)
    fix t r
    assume eq: "rd_term toks = Inr (t, r)"
    from eq ps obtain left r0 where F: "rd_fact toks = Inr (left, r0)"
      and L: "rd_term_loop left r0 = Inr (t, r)"
      by (auto split: sum.splits)
    from "2.IH"(1) F have "length r0 < length toks" by blast
    moreover from "2.IH"(2)[OF F refl] L have "length r \<le> length r0" by blast
    ultimately show "length r < length toks" by simp
  qed
next
  case (3 left toks)
  note ps = rd_term_loop.psimps[OF "3.hyps"]
  show ?case
  proof (intro allI impI)
    fix t r
    assume eq: "rd_term_loop left toks = Inr (t, r)"
    show "length r \<le> length toks"
    proof (cases "type (c_next toks) = TOK_TIMES \<or> type (c_next toks) = TOK_DIVIDE")
      case False
      with eq ps show ?thesis by auto
    next
      case True
      with eq ps obtain right r0 where T: "rd_term (c_consume toks) = Inr (right, r0)"
        and L: "rd_term_loop (AST_make (c_next toks) (Some left) (Some right)) r0 = Inr (t, r)"
        by (auto split: sum.splits)
      from "3.IH"(1)[OF True] T have "length r0 < length (c_consume toks)" by blast
      moreover from "3.IH"(2)[OF True T refl] L have "length r \<le> length r0" by blast
      ultimately show ?thesis using c_consume_le[of toks] by simp
    qed
  qed
next
  case (4 toks)
  note ps = rd_expr.psimps[OF "4.hyps"]
  show ?case
  proof (intro allI impI)
    fix t r
    assume eq: "rd_expr toks = Inr (t, r)"
    from eq ps obtain left r0 where F: "rd_term toks = Inr (left, r0)"
      and L: "rd_expr_loop left r0 = Inr (t, r)"
      by (auto split: sum.splits)
    from "4.IH"(1) F have "length r0 < length toks" by blast
    moreover from "4.IH"(2)[OF F refl] L have "length r \<le> length r0" by blast
    ultimately show "length r < length toks" by simp
  qed
next
  case (5 left toks)
  note ps = rd_expr_loop.psimps[OF "5.hyps"]
  show ?case
  proof (intro allI impI)
    fix t r
    assume eq: "rd_expr_loop left toks = Inr (t, r)"
    show "length r \<le> length toks"
    proof (cases "type (c_next toks) = TOK_PLUS \<or> type (c_next toks) = TOK_MINUS")
      case False
      with eq ps show ?thesis by auto
    next
      case True
      with eq ps obtain right r0 where T: "rd_expr (c_consume toks) = Inr (right, r0)"
        and L: "rd_expr_loop (AST_make (c_next toks) (Some left) (Some right)) r0 = Inr (t, r)"
        by (auto split: sum.splits)
      from "5.IH"(1)[OF True] T have "length r0 < length (c_consume toks)" by blast
      moreover from "5.IH"(2)[OF True T refl] L have "length r \<le> length r0" by blast
      ultimately show ?thesis using c_consume_le[of toks] by simp
    qed
  qed
qed

termination rd_fact
proof (relation "measure (\<lambda>a. case a of
    Inl (Inl t) \<Rightarrow> 3 * length t
  | Inl (Inr t) \<Rightarrow> 3 * length t + 1
  | Inr (Inl (l, t)) \<Rightarrow> 3 * length t
  | Inr (Inr (Inl t)) \<Rightarrow> 3 * length t + 2
  | Inr (Inr (Inr (l, t))) \<Rightarrow> 3 * length t)", goal_cases)
  case 1
  show ?case by simp
next
  case (2 toks)
  then show ?case using c_next_not_end[of toks] by simp
next
  case (3 toks)
  show ?case by simp
next
  case (4 toks fr left r)
  then show ?case using rd_length(1)[of toks] by auto
next
  case (5 left toks)
  then show ?case using c_next_not_end[of toks] by auto
next
  case (6 left toks tr right r)
  then show ?case using c_consume_le[of toks] rd_length(2)[of "c_consume toks"] by auto
next
  case (7 toks)
  show ?case by simp
next
  case (8 toks tr left r)
  then show ?case using rd_length(2)[of toks] by auto
next
  case (9 left toks)
  then show ?case using c_next_not_end[of toks] by auto
next
  case (10 left toks tr right r)
  then show ?case using c_consume_le[of toks] rd_length(4)[of "c_consume toks"] by auto
qed

declare rd_fact.simps [simp del] rd_term.simps [simp del] rd_term_loop.simps [simp del]
  rd_expr.simps [simp del] rd_expr_loop.simps [simp del]

definition rd_parse :: "string \<Rightarrow> c_error + rd_AST" where
  "rd_parse str =
     (case lex_string str of
        Inl e \<Rightarrow> Inl e
      | Inr toks \<Rightarrow>
          (case rd_expr toks of
             Inl e \<Rightarrow> Inl e
           | Inr (ast, r) \<Rightarrow>
               (case c_expect TOK_END r of Inl e \<Rightarrow> Inl e | Inr r' \<Rightarrow> Inr ast)))"

section \<open>infix_prec_climb.c: precedence climbing\<close>

datatype pc_AST =
    AST_value Token
  | AST_unary Token pc_AST
  | AST_binary Token pc_AST pc_AST

text \<open>\<open>AST_print_\<close> (here \<open>AST_print'\<close>) writes to the standard output; the model returns the text.\<close>

fun AST_print' :: "pc_AST \<Rightarrow> string" where
  "AST_print' (AST_value tok) = '' '' @ word tok"
| "AST_print' (AST_unary tok child) = '' ('' @ word tok @ AST_print' child @ '')''"
| "AST_print' (AST_binary tok left right) =
     '' ('' @ word tok @ AST_print' left @ AST_print' right @ '')''"

definition AST_print :: "pc_AST \<Rightarrow> string" where
  "AST_print ast = AST_print' ast"

datatype Assoc = ASSOC_NULL | ASSOC_LEFT | ASSOC_RIGHT

record PrecItem =
  sym :: char
  prec :: int
  assoc :: Assoc

definition unary_prec_arr :: "PrecItem list" where
  "unary_prec_arr = [\<lparr>sym = CHR ''-'', prec = 4, assoc = ASSOC_NULL\<rparr>]"

definition binary_prec_arr :: "PrecItem list" where
  "binary_prec_arr =
     [\<lparr>sym = CHR ''='', prec = 0, assoc = ASSOC_LEFT\<rparr>,
      \<lparr>sym = CHR ''+'', prec = 1, assoc = ASSOC_LEFT\<rparr>,
      \<lparr>sym = CHR ''-'', prec = 1, assoc = ASSOC_LEFT\<rparr>,
      \<lparr>sym = CHR ''*'', prec = 2, assoc = ASSOC_LEFT\<rparr>,
      \<lparr>sym = CHR ''/'', prec = 2, assoc = ASSOC_LEFT\<rparr>,
      \<lparr>sym = CHR ''^'', prec = 3, assoc = ASSOC_RIGHT\<rparr>]"

text \<open>
  \<open>prec_arr_find\<close> returns a pointer to the first item with the symbol, or the null
  pointer (\<open>None\<close>).
\<close>

fun prec_arr_find :: "PrecItem list \<Rightarrow> char \<Rightarrow> PrecItem option" where
  "prec_arr_find [] s = None"
| "prec_arr_find (item # items) s = (if sym item = s then Some item else prec_arr_find items s)"

definition prec_arr_contains :: "PrecItem list \<Rightarrow> char \<Rightarrow> bool" where
  "prec_arr_contains prec_arr s = (prec_arr_find prec_arr s \<noteq> None)"

text \<open>\<open>*tok.word\<close>, the first character of the word (the terminator when it is empty).\<close>

definition first_char :: "Token \<Rightarrow> char" where
  "first_char tok = (case word tok of [] \<Rightarrow> CHR 0x00 | c # _ \<Rightarrow> c)"

definition is_unary_op :: "Token \<Rightarrow> bool" where
  "is_unary_op tok =
     (if type tok = TOK_END then False else prec_arr_contains unary_prec_arr (first_char tok))"

definition is_binary_op :: "Token \<Rightarrow> bool" where
  "is_binary_op tok =
     (if type tok = TOK_END then False else prec_arr_contains binary_prec_arr (first_char tok))"

definition get_unary_prec :: "Token \<Rightarrow> c_error + int" where
  "get_unary_prec tok =
     (case prec_arr_find unary_prec_arr (first_char tok) of
        Some item \<Rightarrow> Inr (prec item)
      | None \<Rightarrow> Inl E_invalid_unary_operator)"

definition get_binary_prec :: "Token \<Rightarrow> c_error + int" where
  "get_binary_prec tok =
     (case prec_arr_find binary_prec_arr (first_char tok) of
        Some item \<Rightarrow> Inr (prec item)
      | None \<Rightarrow> Inl E_invalid_binary_operator)"

text \<open>
  \<open>P\<close>, \<open>E\<close> and \<open>expr\<close>. The \<open>while\<close> loop of \<open>E\<close> is \<open>pc_E_loop\<close>, with
  \<open>min_prec\<close> and the variable \<open>left\<close> as arguments; its condition
  \<open>is_binary_op(next()) && get_binary_prec(next()) >= min_prec\<close> evaluates the second
  operand only when the first holds. In the body \<open>item\<close> is the result of
  \<open>prec_arr_find\<close>, read without a test: were it the null pointer, the program would
  leave what C defines.
\<close>

function pc_P :: "Token list \<Rightarrow> c_error + (pc_AST \<times> Token list)"
  and pc_E :: "int \<Rightarrow> Token list \<Rightarrow> c_error + (pc_AST \<times> Token list)"
  and pc_E_loop :: "int \<Rightarrow> pc_AST \<Rightarrow> Token list \<Rightarrow> c_error + (pc_AST \<times> Token list)"
  and pc_expr :: "Token list \<Rightarrow> c_error + (pc_AST \<times> Token list)" where
  "pc_P toks =
     (if is_unary_op (c_next toks) then
        (case get_unary_prec (c_next toks) of
           Inl e \<Rightarrow> Inl e
         | Inr p \<Rightarrow>
             (case pc_E p (c_consume toks) of
                Inl e \<Rightarrow> Inl e
              | Inr (child, r) \<Rightarrow> Inr (AST_unary (c_next toks) child, r)))
      else if type (c_next toks) = TOK_PAREN_L then
        (case pc_expr (c_consume toks) of
           Inl e \<Rightarrow> Inl e
         | Inr (ast, r) \<Rightarrow>
             (case c_expect TOK_PAREN_R r of Inl e \<Rightarrow> Inl e | Inr r' \<Rightarrow> Inr (ast, r')))
      else if type (c_next toks) = TOK_VAL then
        Inr (AST_value (c_next toks), c_consume toks)
      else Inl E_invalid_token)"
| "pc_E min_prec toks =
     (case pc_P toks of Inl e \<Rightarrow> Inl e | Inr (left, r) \<Rightarrow> pc_E_loop min_prec left r)"
| "pc_E_loop min_prec left toks =
     (if is_binary_op (c_next toks) then
        (case get_binary_prec (c_next toks) of
           Inl e \<Rightarrow> Inl e
         | Inr p \<Rightarrow>
             if p \<ge> min_prec then
               (case prec_arr_find binary_prec_arr (first_char (c_next toks)) of
                  None \<Rightarrow> Inl E_undefined_behaviour
                | Some item \<Rightarrow>
                    (case pc_E (if assoc item = ASSOC_LEFT then prec item + 1 else prec item)
                            (c_consume toks) of
                       Inl e \<Rightarrow> Inl e
                     | Inr (right, r) \<Rightarrow>
                         pc_E_loop min_prec (AST_binary (c_next toks) left right) r))
             else Inr (left, toks))
      else Inr (left, toks))"
| "pc_expr toks = pc_E 0 toks"
  by pat_completeness auto

lemma is_unary_op_not_end: "is_unary_op tok \<Longrightarrow> type tok \<noteq> TOK_END"
  by (auto simp: is_unary_op_def split: if_splits)

lemma is_binary_op_not_end: "is_binary_op tok \<Longrightarrow> type tok \<noteq> TOK_END"
  by (auto simp: is_binary_op_def split: if_splits)

lemma pc_length:
  "pc_P_pc_E_pc_E_loop_pc_expr_dom (Inl (Inl a)) \<Longrightarrow>
     \<forall>t r. pc_P a = Inr (t, r) \<longrightarrow> length r < length a"
  "pc_P_pc_E_pc_E_loop_pc_expr_dom (Inl (Inr (m1, b))) \<Longrightarrow>
     \<forall>t r. pc_E m1 b = Inr (t, r) \<longrightarrow> length r < length b"
  "pc_P_pc_E_pc_E_loop_pc_expr_dom (Inr (Inl (m2, l2, c))) \<Longrightarrow>
     \<forall>t r. pc_E_loop m2 l2 c = Inr (t, r) \<longrightarrow> length r \<le> length c"
  "pc_P_pc_E_pc_E_loop_pc_expr_dom (Inr (Inr d)) \<Longrightarrow>
     \<forall>t r. pc_expr d = Inr (t, r) \<longrightarrow> length r < length d"
proof (induction a and m1 b and m2 l2 c and d rule: pc_P_pc_E_pc_E_loop_pc_expr.pinduct)
  case (1 toks)
  note ps = pc_P.psimps[OF "1.hyps"]
  show ?case
  proof (intro allI impI)
    fix t r
    assume eq: "pc_P toks = Inr (t, r)"
    show "length r < length toks"
    proof (cases "is_unary_op (c_next toks)")
      case True
      with eq ps obtain p child where p: "get_unary_prec (c_next toks) = Inr p"
        and E: "pc_E p (c_consume toks) = Inr (child, r)"
        by (auto split: sum.splits)
      from "1.IH"(1)[OF True p] E have "length r < length (c_consume toks)" by blast
      with c_consume_le[of toks] show ?thesis by simp
    next
      case False
      show ?thesis
      proof (cases "type (c_next toks) = TOK_PAREN_L")
        case True
        with False eq ps obtain r1 where E: "pc_expr (c_consume toks) = Inr (t, r1)"
          and X: "c_expect TOK_PAREN_R r1 = Inr r"
          by (auto split: sum.splits)
        from "1.IH"(2)[OF False True] E have "length r1 < length (c_consume toks)" by blast
        with c_expect_le[OF X] c_consume_le[of toks] show ?thesis by simp
      next
        case notl: False
        show ?thesis
        proof (cases "type (c_next toks) = TOK_VAL")
          case True
          with False notl eq ps have "r = c_consume toks" by simp
          with True show ?thesis using c_next_not_end[of toks] by simp
        next
          case notv: False
          with False notl eq ps show ?thesis by simp
        qed
      qed
    qed
  qed
next
  case (2 min_prec toks)
  note ps = pc_E.psimps[OF "2.hyps"]
  show ?case
  proof (intro allI impI)
    fix t r
    assume eq: "pc_E min_prec toks = Inr (t, r)"
    from eq ps obtain left r0 where P: "pc_P toks = Inr (left, r0)"
      and L: "pc_E_loop min_prec left r0 = Inr (t, r)"
      by (auto split: sum.splits)
    from "2.IH"(1) P have "length r0 < length toks" by blast
    moreover from "2.IH"(2)[OF P refl] L have "length r \<le> length r0" by blast
    ultimately show "length r < length toks" by simp
  qed
next
  case (3 min_prec left toks)
  note ps = pc_E_loop.psimps[OF "3.hyps"]
  show ?case
  proof (intro allI impI)
    fix t r
    assume eq: "pc_E_loop min_prec left toks = Inr (t, r)"
    show "length r \<le> length toks"
    proof (cases "is_binary_op (c_next toks)")
      case False
      with eq ps show ?thesis by simp
    next
      case True
      from True eq ps obtain p where p: "get_binary_prec (c_next toks) = Inr p"
        by (auto split: sum.splits)
      show ?thesis
      proof (cases "min_prec \<le> p")
        case False
        with True p eq ps show ?thesis by simp
      next
        case le: True
        with True p eq ps obtain item right r0 where
          i: "prec_arr_find binary_prec_arr (first_char (c_next toks)) = Some item"
          and E: "pc_E (if assoc item = ASSOC_LEFT then prec item + 1 else prec item)
                    (c_consume toks) = Inr (right, r0)"
          and L: "pc_E_loop min_prec (AST_binary (c_next toks) left right) r0 = Inr (t, r)"
          by (auto split: sum.splits option.splits)
        from "3.IH"(1)[OF True p le i] E have "length r0 < length (c_consume toks)" by blast
        moreover from "3.IH"(2)[OF True p le i E refl] L have "length r \<le> length r0" by blast
        ultimately show ?thesis using c_consume_le[of toks] by simp
      qed
    qed
  qed
next
  case (4 toks)
  note ps = pc_expr.psimps[OF "4.hyps"]
  from "4.IH" ps show ?case by simp
qed

termination pc_P
proof (relation "measure (\<lambda>a. case a of
    Inl (Inl t) \<Rightarrow> 3 * length t
  | Inl (Inr (m, t)) \<Rightarrow> 3 * length t + 1
  | Inr (Inl (m, l, t)) \<Rightarrow> 3 * length t
  | Inr (Inr t) \<Rightarrow> 3 * length t + 2)", goal_cases)
  case 1
  show ?case by simp
next
  case (2 toks p)
  then show ?case
    using c_next_not_end[of toks] is_unary_op_not_end[of "c_next toks"] by simp
next
  case (3 toks)
  then show ?case using c_next_not_end[of toks] by simp
next
  case (4 min_prec toks)
  show ?case by simp
next
  case (5 min_prec toks pr left r)
  then show ?case using pc_length(1)[of toks] by auto
next
  case (6 min_prec left toks p item)
  then show ?case
    using c_next_not_end[of toks] is_binary_op_not_end[of "c_next toks"] by simp
next
  case (7 min_prec left toks p item er right r)
  then show ?case
    using c_consume_le[of toks]
      pc_length(2)[of "if assoc item = ASSOC_LEFT then prec item + 1 else prec item" "c_consume toks"]
    by auto
next
  case (8 toks)
  show ?case by simp
qed

declare pc_P.simps [simp del] pc_E.simps [simp del] pc_E_loop.simps [simp del]
  pc_expr.simps [simp del]

definition pc_parse :: "string \<Rightarrow> c_error + pc_AST" where
  "pc_parse str =
     (case lex_string str of
        Inl e \<Rightarrow> Inl e
      | Inr toks \<Rightarrow>
          (case pc_expr toks of
             Inl e \<Rightarrow> Inl e
           | Inr (ast, r) \<Rightarrow>
               (case c_expect TOK_END r of Inl e \<Rightarrow> Inl e | Inr r' \<Rightarrow> Inr ast)))"

section \<open>Notions used to state the properties\<close>

text \<open>
  The two C parsers keep the words of the tokens, the Scheme parsers the numbers and
  the symbols. \<open>tree_of_AST\<close> reads a tree of \<open>infix_prec_climb.c\<close> as the tree of
  \<open>xpr-fix.scm\<close> with the same shape: a value becomes the number of its word, a
  binary node the node of the operator's symbol; a unary node has no counterpart.
\<close>

fun tree_of_AST :: "(string \<Rightarrow> 'n option) \<Rightarrow> pc_AST \<Rightarrow> 'n tree option" where
  "tree_of_AST s2n (AST_value tok) =
     (case s2n (word tok) of None \<Rightarrow> None | Some num \<Rightarrow> Some (Leaf (Num num)))"
| "tree_of_AST s2n (AST_unary tok child) = None"
| "tree_of_AST s2n (AST_binary tok left right) =
     (case tree_of_AST s2n left of
        None \<Rightarrow> None
      | Some l \<Rightarrow>
          (case tree_of_AST s2n right of
             None \<Rightarrow> None
           | Some r \<Rightarrow> Some (Node (Sym (word tok)) l r)))"

text \<open>
  A tree is right-associated when the left operand of every operation on its right
  spine is a leaf: the shape \<open>(op a (op b (op c ...)))\<close>, whatever the operators are.
\<close>

fun right_associated :: "'n tree \<Rightarrow> bool" where
  "right_associated (Leaf v) = True"
| "right_associated (Node op (Leaf v) r) = right_associated r"
| "right_associated (Node op (Node op2 a b) r) = False"

text \<open>The number of the tokens of type \<open>n\<close> in a list of tokens.\<close>

definition count_numbers :: "'n token list \<Rightarrow> nat" where
  "count_numbers toks = length (filter (\<lambda>x. tok_t x = TN) toks)"

section \<open>Claims about the precedence-climbing parser\<close>

text \<open>
  C10: in the precedence-climbing parser the unary minus has precedence 4 and the
  exponentiation precedence 3, so the unary minus on the base of a power binds tighter
  than \<open>^\<close>: \<open>-2^3\<close> parses to the power whose base is the negation of 2, that is
  \<open>(-2)^3\<close>, and not to the negation of \<open>2^3\<close>.
\<close>

theorem C10_unary_minus_tighter_than_power:
  "get_unary_prec \<lparr>type = TOK_MINUS, word = ''-''\<rparr> = Inr 4
   \<and> get_binary_prec \<lparr>type = TOK_EXPONENT, word = ''^''\<rparr> = Inr 3
   \<and> pc_parse ''-2^3'' =
       Inr (AST_binary \<lparr>type = TOK_EXPONENT, word = ''^''\<rparr>
             (AST_unary \<lparr>type = TOK_MINUS, word = ''-''\<rparr>
               (AST_value \<lparr>type = TOK_VAL, word = ''2''\<rparr>))
             (AST_value \<lparr>type = TOK_VAL, word = ''3''\<rparr>))
   \<and> pc_parse ''-2^3'' \<noteq>
       Inr (AST_unary \<lparr>type = TOK_MINUS, word = ''-''\<rparr>
             (AST_binary \<lparr>type = TOK_EXPONENT, word = ''^''\<rparr>
               (AST_value \<lparr>type = TOK_VAL, word = ''2''\<rparr>)
               (AST_value \<lparr>type = TOK_VAL, word = ''3''\<rparr>)))"
  by code_simp

text \<open>
  C7: the precedence-climbing parser treats \<open>^\<close> as right-associative: \<open>1^2^3\<close>
  parses to \<open>(1^(2^3))\<close>. In general, when the loop of \<open>E\<close> consumes a binary
  operator whose table entry has precedence \<open>p\<close>, it calls \<open>E\<close> at the minimum
  precedence \<open>p + 1\<close> if the entry is left-associative and at \<open>p\<close> if it is
  right-associative, and goes on with the binary node of both operands as the left
  operand.
\<close>

theorem C7_power_right_associative:
  "pc_parse ''1^2^3'' =
     Inr (AST_binary \<lparr>type = TOK_EXPONENT, word = ''^''\<rparr>
           (AST_value \<lparr>type = TOK_VAL, word = ''1''\<rparr>)
           (AST_binary \<lparr>type = TOK_EXPONENT, word = ''^''\<rparr>
             (AST_value \<lparr>type = TOK_VAL, word = ''2''\<rparr>)
             (AST_value \<lparr>type = TOK_VAL, word = ''3''\<rparr>)))
   \<and> prec_arr_find binary_prec_arr CHR ''^'' =
       Some \<lparr>sym = CHR ''^'', prec = 3, assoc = ASSOC_RIGHT\<rparr>
   \<and> (\<forall>min_prec left toks item.
        is_binary_op (c_next toks)
        \<and> prec_arr_find binary_prec_arr (first_char (c_next toks)) = Some item
        \<and> min_prec \<le> prec item
        \<longrightarrow>
          (assoc item = ASSOC_LEFT \<longrightarrow>
             pc_E_loop min_prec left toks =
               (case pc_E (prec item + 1) (c_consume toks) of
                  Inl e \<Rightarrow> Inl e
                | Inr (right, r) \<Rightarrow>
                    pc_E_loop min_prec (AST_binary (c_next toks) left right) r))
          \<and> (assoc item = ASSOC_RIGHT \<longrightarrow>
             pc_E_loop min_prec left toks =
               (case pc_E (prec item) (c_consume toks) of
                  Inl e \<Rightarrow> Inl e
                | Inr (right, r) \<Rightarrow>
                    pc_E_loop min_prec (AST_binary (c_next toks) left right) r)))"
proof (intro conjI allI impI)
  show "pc_parse ''1^2^3'' =
     Inr (AST_binary \<lparr>type = TOK_EXPONENT, word = ''^''\<rparr>
           (AST_value \<lparr>type = TOK_VAL, word = ''1''\<rparr>)
           (AST_binary \<lparr>type = TOK_EXPONENT, word = ''^''\<rparr>
             (AST_value \<lparr>type = TOK_VAL, word = ''2''\<rparr>)
             (AST_value \<lparr>type = TOK_VAL, word = ''3''\<rparr>)))"
    by code_simp
next
  show "prec_arr_find binary_prec_arr CHR ''^'' =
       Some \<lparr>sym = CHR ''^'', prec = 3, assoc = ASSOC_RIGHT\<rparr>"
    by code_simp
next
  fix min_prec :: int and left toks item
  assume h: "is_binary_op (c_next toks)
        \<and> prec_arr_find binary_prec_arr (first_char (c_next toks)) = Some item
        \<and> min_prec \<le> prec item"
  assume a: "assoc item = ASSOC_LEFT"
  from h a show "pc_E_loop min_prec left toks =
               (case pc_E (prec item + 1) (c_consume toks) of
                  Inl e \<Rightarrow> Inl e
                | Inr (right, r) \<Rightarrow>
                    pc_E_loop min_prec (AST_binary (c_next toks) left right) r)"
    by (subst pc_E_loop.simps) (simp add: get_binary_prec_def)
next
  fix min_prec :: int and left toks item
  assume h: "is_binary_op (c_next toks)
        \<and> prec_arr_find binary_prec_arr (first_char (c_next toks)) = Some item
        \<and> min_prec \<le> prec item"
  assume a: "assoc item = ASSOC_RIGHT"
  from h a show "pc_E_loop min_prec left toks =
               (case pc_E (prec item) (c_consume toks) of
                  Inl e \<Rightarrow> Inl e
                | Inr (right, r) \<Rightarrow>
                    pc_E_loop min_prec (AST_binary (c_next toks) left right) r)"
    by (subst pc_E_loop.simps) (simp add: get_binary_prec_def)
qed

theorem C7_power_right_associative_witness:
  "is_binary_op (c_next [\<lparr>type = TOK_EXPONENT, word = ''^''\<rparr>,
                          \<lparr>type = TOK_VAL, word = ''2''\<rparr>])
   \<and> prec_arr_find binary_prec_arr
        (first_char (c_next [\<lparr>type = TOK_EXPONENT, word = ''^''\<rparr>,
                             \<lparr>type = TOK_VAL, word = ''2''\<rparr>]))
       = Some \<lparr>sym = CHR ''^'', prec = 3, assoc = ASSOC_RIGHT\<rparr>
   \<and> pc_E_loop 0 (AST_value \<lparr>type = TOK_VAL, word = ''1''\<rparr>)
        [\<lparr>type = TOK_EXPONENT, word = ''^''\<rparr>, \<lparr>type = TOK_VAL, word = ''2''\<rparr>]
       = (case pc_E 3 (c_consume [\<lparr>type = TOK_EXPONENT, word = ''^''\<rparr>,
                                  \<lparr>type = TOK_VAL, word = ''2''\<rparr>]) of
            Inl e \<Rightarrow> Inl e
          | Inr (right, r) \<Rightarrow>
              pc_E_loop 0
                (AST_binary (c_next [\<lparr>type = TOK_EXPONENT, word = ''^''\<rparr>,
                                     \<lparr>type = TOK_VAL, word = ''2''\<rparr>])
                  (AST_value \<lparr>type = TOK_VAL, word = ''1''\<rparr>) right) r)
   \<and> is_binary_op (c_next [\<lparr>type = TOK_MINUS, word = ''-''\<rparr>,
                            \<lparr>type = TOK_VAL, word = ''2''\<rparr>])
   \<and> prec_arr_find binary_prec_arr
        (first_char (c_next [\<lparr>type = TOK_MINUS, word = ''-''\<rparr>,
                             \<lparr>type = TOK_VAL, word = ''2''\<rparr>]))
       = Some \<lparr>sym = CHR ''-'', prec = 1, assoc = ASSOC_LEFT\<rparr>
   \<and> pc_E_loop 0 (AST_value \<lparr>type = TOK_VAL, word = ''1''\<rparr>)
        [\<lparr>type = TOK_MINUS, word = ''-''\<rparr>, \<lparr>type = TOK_VAL, word = ''2''\<rparr>]
       = (case pc_E 2 (c_consume [\<lparr>type = TOK_MINUS, word = ''-''\<rparr>,
                                  \<lparr>type = TOK_VAL, word = ''2''\<rparr>]) of
            Inl e \<Rightarrow> Inl e
          | Inr (right, r) \<Rightarrow>
              pc_E_loop 0
                (AST_binary (c_next [\<lparr>type = TOK_MINUS, word = ''-''\<rparr>,
                                     \<lparr>type = TOK_VAL, word = ''2''\<rparr>])
                  (AST_value \<lparr>type = TOK_VAL, word = ''1''\<rparr>) right) r)"
proof -
  let ?pow = "\<lparr>type = TOK_EXPONENT, word = ''^''\<rparr>"
  let ?min = "\<lparr>type = TOK_MINUS, word = ''-''\<rparr>"
  let ?two = "\<lparr>type = TOK_VAL, word = ''2''\<rparr>"
  let ?ipow = "\<lparr>sym = CHR ''^'', prec = 3, assoc = ASSOC_RIGHT\<rparr>"
  let ?imin = "\<lparr>sym = CHR ''-'', prec = 1, assoc = ASSOC_LEFT\<rparr>"
  have b1: "is_binary_op (c_next [?pow, ?two])" by code_simp
  have f1: "prec_arr_find binary_prec_arr (first_char (c_next [?pow, ?two])) = Some ?ipow"
    by code_simp
  have b2: "is_binary_op (c_next [?min, ?two])" by code_simp
  have f2: "prec_arr_find binary_prec_arr (first_char (c_next [?min, ?two])) = Some ?imin"
    by code_simp
  note gen = C7_power_right_associative[THEN conjunct2, THEN conjunct2, rule_format]
  have r: "pc_E_loop 0 (AST_value \<lparr>type = TOK_VAL, word = ''1''\<rparr>) [?pow, ?two]
       = (case pc_E 3 (c_consume [?pow, ?two]) of
            Inl e \<Rightarrow> Inl e
          | Inr (right, r) \<Rightarrow>
              pc_E_loop 0
                (AST_binary (c_next [?pow, ?two])
                  (AST_value \<lparr>type = TOK_VAL, word = ''1''\<rparr>) right) r)"
    using gen[of "[?pow, ?two]" ?ipow 0] b1 f1 by simp
  have l: "pc_E_loop 0 (AST_value \<lparr>type = TOK_VAL, word = ''1''\<rparr>) [?min, ?two]
       = (case pc_E 2 (c_consume [?min, ?two]) of
            Inl e \<Rightarrow> Inl e
          | Inr (right, r) \<Rightarrow>
              pc_E_loop 0
                (AST_binary (c_next [?min, ?two])
                  (AST_value \<lparr>type = TOK_VAL, word = ''1''\<rparr>) right) r)"
    using gen[of "[?min, ?two]" ?imin 0] b2 f2 by simp
  show ?thesis
    by (intro conjI) (rule b1 f1 r b2 f2 l)+
qed

section \<open>Claims about the agreement of the parsers\<close>

text \<open>
  C2: the left-associative parser with precedence and parentheses (which parses the
  reversed tokens and mirrors the whole tree) and the precedence-climbing parser build
  the same tree for \<open>1*2 + 3*(4+5)\<close>, namely \<open>((1*2)+(3*(4+5)))\<close>; both group a
  chain of \<open>+\<close> and a chain of \<open>*\<close> from left to right.
\<close>

theorem C2_lpp_and_climbing_agree:
  "parse_infix_lpp string_to_number ''1*2 + 3*(4+5)'' =
     Inr (Node (Sym ''+'')
           (Node (Sym ''*'') (Leaf (Num 1)) (Leaf (Num 2)))
           (Node (Sym ''*'') (Leaf (Num 3))
             (Node (Sym ''+'') (Leaf (Num 4)) (Leaf (Num 5)))))
   \<and> pc_parse ''1*2 + 3*(4+5)'' =
     Inr (AST_binary \<lparr>type = TOK_PLUS, word = ''+''\<rparr>
           (AST_binary \<lparr>type = TOK_TIMES, word = ''*''\<rparr>
             (AST_value \<lparr>type = TOK_VAL, word = ''1''\<rparr>)
             (AST_value \<lparr>type = TOK_VAL, word = ''2''\<rparr>))
           (AST_binary \<lparr>type = TOK_TIMES, word = ''*''\<rparr>
             (AST_value \<lparr>type = TOK_VAL, word = ''3''\<rparr>)
             (AST_binary \<lparr>type = TOK_PLUS, word = ''+''\<rparr>
               (AST_value \<lparr>type = TOK_VAL, word = ''4''\<rparr>)
               (AST_value \<lparr>type = TOK_VAL, word = ''5''\<rparr>))))
   \<and> (case pc_parse ''1*2 + 3*(4+5)'' of
         Inl e \<Rightarrow> None
       | Inr ast \<Rightarrow> tree_of_AST string_to_number ast) =
       (case parse_infix_lpp string_to_number ''1*2 + 3*(4+5)'' of
         Inl e \<Rightarrow> None
       | Inr tree \<Rightarrow> Some tree)
   \<and> parse_infix_lpp string_to_number ''1+2+3'' =
     Inr (Node (Sym ''+'') (Node (Sym ''+'') (Leaf (Num 1)) (Leaf (Num 2))) (Leaf (Num 3)))
   \<and> parse_infix_lpp string_to_number ''1*2*3'' =
     Inr (Node (Sym ''*'') (Node (Sym ''*'') (Leaf (Num 1)) (Leaf (Num 2))) (Leaf (Num 3)))
   \<and> pc_parse ''1+2+3'' =
     Inr (AST_binary \<lparr>type = TOK_PLUS, word = ''+''\<rparr>
           (AST_binary \<lparr>type = TOK_PLUS, word = ''+''\<rparr>
             (AST_value \<lparr>type = TOK_VAL, word = ''1''\<rparr>)
             (AST_value \<lparr>type = TOK_VAL, word = ''2''\<rparr>))
           (AST_value \<lparr>type = TOK_VAL, word = ''3''\<rparr>))
   \<and> pc_parse ''1*2*3'' =
     Inr (AST_binary \<lparr>type = TOK_TIMES, word = ''*''\<rparr>
           (AST_binary \<lparr>type = TOK_TIMES, word = ''*''\<rparr>
             (AST_value \<lparr>type = TOK_VAL, word = ''1''\<rparr>)
             (AST_value \<lparr>type = TOK_VAL, word = ''2''\<rparr>))
           (AST_value \<lparr>type = TOK_VAL, word = ''3''\<rparr>))"
  by code_simp

text \<open>
  C9: for a parser that accepts parentheses, \<open>1*2 + 3*(4+5)\<close> and
  \<open>(1*2) + (3*(4+5))\<close> give trees with the same printed form: the redundant
  parentheses do not change the tree. This holds for the recursive-descent parser
  and the precedence-climbing parser with their \<open>AST_print\<close>, and the trees of
  \<open>parse-infix-lpp\<close> for the two inputs are equal.
\<close>

theorem C9_redundant_parentheses:
  "(case rd_parse ''1*2 + 3*(4+5)'' of Inl e \<Rightarrow> Inl e | Inr ast \<Rightarrow> rd_AST_print ast) =
     Inr '' (+ (* 1 2) (* 3 (+ 4 5)))''
   \<and> (case rd_parse ''(1*2) + (3*(4+5))'' of Inl e \<Rightarrow> Inl e | Inr ast \<Rightarrow> rd_AST_print ast) =
     Inr '' (+ (* 1 2) (* 3 (+ 4 5)))''
   \<and> rd_parse ''1*2 + 3*(4+5)'' = rd_parse ''(1*2) + (3*(4+5))''
   \<and> (case pc_parse ''1*2 + 3*(4+5)'' of Inl e \<Rightarrow> Inl e | Inr ast \<Rightarrow> Inr (AST_print ast)) =
     Inr '' (+ (* 1 2) (* 3 (+ 4 5)))''
   \<and> (case pc_parse ''(1*2) + (3*(4+5))'' of Inl e \<Rightarrow> Inl e | Inr ast \<Rightarrow> Inr (AST_print ast)) =
     Inr '' (+ (* 1 2) (* 3 (+ 4 5)))''
   \<and> pc_parse ''1*2 + 3*(4+5)'' = pc_parse ''(1*2) + (3*(4+5))''
   \<and> parse_infix_lpp string_to_number ''1*2 + 3*(4+5)'' =
       parse_infix_lpp string_to_number ''(1*2) + (3*(4+5))''
   \<and> parse_infix_lpp string_to_number ''(1*2) + (3*(4+5))'' =
     Inr (Node (Sym ''+'')
           (Node (Sym ''*'') (Leaf (Num 1)) (Leaf (Num 2)))
           (Node (Sym ''*'') (Leaf (Num 3))
             (Node (Sym ''+'') (Leaf (Num 4)) (Leaf (Num 5)))))"
  by code_simp

section \<open>Claims about the right-associative parsers\<close>

text \<open>
  C8: in the right-associative parser with precedence, \<open>*\<close> and \<open>/\<close> bind tighter
  than \<open>+\<close> and \<open>-\<close>, and the chains of each class associate to the right: after
  \<open>+\<close> or \<open>-\<close> the right operand is a whole \<open>EXPR\<close>, after \<open>*\<close> or \<open>/\<close> a
  whole \<open>TERM\<close>. So \<open>1-2-3\<close> is \<open>1-(2-3)\<close>, \<open>1*2*3\<close> is \<open>1*(2*3)\<close> and
  \<open>1+2*3\<close> is \<open>1+(2*3)\<close>, in \<open>parse-infix-rpn\<close> and in \<open>infix_recur_desc.c\<close>.
\<close>

theorem C8_rpn_precedence_right_associative:
  "parse_infix_rpn string_to_number ''1-2-3'' =
     Inr (Node (Sym ''-'') (Leaf (Num 1)) (Node (Sym ''-'') (Leaf (Num 2)) (Leaf (Num 3))))
   \<and> parse_infix_rpn string_to_number ''1*2*3'' =
     Inr (Node (Sym ''*'') (Leaf (Num 1)) (Node (Sym ''*'') (Leaf (Num 2)) (Leaf (Num 3))))
   \<and> parse_infix_rpn string_to_number ''1+2*3'' =
     Inr (Node (Sym ''+'') (Leaf (Num 1)) (Node (Sym ''*'') (Leaf (Num 2)) (Leaf (Num 3))))
   \<and> parse_infix_rpn string_to_number ''1*2+3'' =
     Inr (Node (Sym ''+'') (Node (Sym ''*'') (Leaf (Num 1)) (Leaf (Num 2))) (Leaf (Num 3)))
   \<and> (case rd_parse ''1-2-3'' of Inl e \<Rightarrow> Inl e | Inr ast \<Rightarrow> rd_AST_print ast) =
     Inr '' (- 1 (- 2 3))''
   \<and> (case rd_parse ''1*2*3'' of Inl e \<Rightarrow> Inl e | Inr ast \<Rightarrow> rd_AST_print ast) =
     Inr '' (* 1 (* 2 3))''
   \<and> (case rd_parse ''1+2*3'' of Inl e \<Rightarrow> Inl e | Inr ast \<Rightarrow> rd_AST_print ast) =
     Inr '' (+ 1 (* 2 3))''
   \<and> (case rd_parse ''1*2+3'' of Inl e \<Rightarrow> Inl e | Inr ast \<Rightarrow> rd_AST_print ast) =
     Inr '' (+ (* 1 2) 3)''
   \<and> (\<forall>toks trm r0 y op r1.
        rpn_TERM toks = Inr (trm, r0) \<and> next_tok r0 = Some y
        \<and> (match_value y (Sym ''+'') \<or> match_value y (Sym ''-''))
        \<and> parse_op r0 = Inr (op, r1)
        \<longrightarrow> rpn_EXPR toks =
              (case rpn_EXPR r1 of
                 Inl e \<Rightarrow> Inl e
               | Inr (t, r2) \<Rightarrow> Inr (Node op trm t, r2)))
   \<and> (\<forall>toks fct r0 y op r1.
        rpn_FACT toks = Inr (fct, r0) \<and> next_tok r0 = Some y
        \<and> (match_value y (Sym ''*'') \<or> match_value y (Sym ''/''))
        \<and> parse_op r0 = Inr (op, r1)
        \<longrightarrow> rpn_TERM toks =
              (case rpn_TERM r1 of
                 Inl e \<Rightarrow> Inl e
               | Inr (t, r2) \<Rightarrow> Inr (Node op fct t, r2)))
   \<and> (\<forall>left toks.
        type (c_next toks) = TOK_PLUS \<or> type (c_next toks) = TOK_MINUS
        \<longrightarrow> rd_expr_loop left toks =
              (case rd_expr (c_consume toks) of
                 Inl e \<Rightarrow> Inl e
               | Inr (right, r) \<Rightarrow>
                   rd_expr_loop (AST_make (c_next toks) (Some left) (Some right)) r))
   \<and> (\<forall>left toks.
        type (c_next toks) = TOK_TIMES \<or> type (c_next toks) = TOK_DIVIDE
        \<longrightarrow> rd_term_loop left toks =
              (case rd_term (c_consume toks) of
                 Inl e \<Rightarrow> Inl e
               | Inr (right, r) \<Rightarrow>
                   rd_term_loop (AST_make (c_next toks) (Some left) (Some right)) r))"
proof -
  have e1: "parse_infix_rpn string_to_number ''1-2-3'' =
     Inr (Node (Sym ''-'') (Leaf (Num 1)) (Node (Sym ''-'') (Leaf (Num 2)) (Leaf (Num 3))))"
    by code_simp
  have e2: "parse_infix_rpn string_to_number ''1*2*3'' =
     Inr (Node (Sym ''*'') (Leaf (Num 1)) (Node (Sym ''*'') (Leaf (Num 2)) (Leaf (Num 3))))"
    by code_simp
  have e3: "parse_infix_rpn string_to_number ''1+2*3'' =
     Inr (Node (Sym ''+'') (Leaf (Num 1)) (Node (Sym ''*'') (Leaf (Num 2)) (Leaf (Num 3))))"
    by code_simp
  have e4: "parse_infix_rpn string_to_number ''1*2+3'' =
     Inr (Node (Sym ''+'') (Node (Sym ''*'') (Leaf (Num 1)) (Leaf (Num 2))) (Leaf (Num 3)))"
    by code_simp
  have c1: "(case rd_parse ''1-2-3'' of Inl e \<Rightarrow> Inl e | Inr ast \<Rightarrow> rd_AST_print ast) =
     Inr '' (- 1 (- 2 3))''"
    by code_simp
  have c2: "(case rd_parse ''1*2*3'' of Inl e \<Rightarrow> Inl e | Inr ast \<Rightarrow> rd_AST_print ast) =
     Inr '' (* 1 (* 2 3))''"
    by code_simp
  have c3: "(case rd_parse ''1+2*3'' of Inl e \<Rightarrow> Inl e | Inr ast \<Rightarrow> rd_AST_print ast) =
     Inr '' (+ 1 (* 2 3))''"
    by code_simp
  have c4: "(case rd_parse ''1*2+3'' of Inl e \<Rightarrow> Inl e | Inr ast \<Rightarrow> rd_AST_print ast) =
     Inr '' (+ (* 1 2) 3)''"
    by code_simp
  have g1: "rpn_EXPR toks =
              (case rpn_EXPR r1 of
                 Inl e \<Rightarrow> Inl e
               | Inr (t, r2) \<Rightarrow> Inr (Node op trm t, r2))"
    if h: "rpn_TERM toks = Inr (trm, r0) \<and> next_tok r0 = Some y
        \<and> (match_value y (Sym ''+'') \<or> match_value y (Sym ''-''))
        \<and> parse_op r0 = Inr (op, r1)"
    for toks :: "'a token list" and trm r0 y op r1
  proof -
    from h have "next_tok toks \<noteq> None"
      by (subst (asm) rpn_TERM.simps) (auto split: option.splits)
    then obtain x where "next_tok toks = Some x" by auto
    with h show ?thesis by (subst rpn_EXPR.simps) auto
  qed
  have g2: "rpn_TERM toks =
              (case rpn_TERM r1 of
                 Inl e \<Rightarrow> Inl e
               | Inr (t, r2) \<Rightarrow> Inr (Node op fct t, r2))"
    if h: "rpn_FACT toks = Inr (fct, r0) \<and> next_tok r0 = Some y
        \<and> (match_value y (Sym ''*'') \<or> match_value y (Sym ''/''))
        \<and> parse_op r0 = Inr (op, r1)"
    for toks :: "'b token list" and fct r0 y op r1
  proof -
    from h have "next_tok toks \<noteq> None"
      by (auto simp: rpn_FACT_def split: option.splits)
    then obtain x where "next_tok toks = Some x" by auto
    with h show ?thesis by (subst rpn_TERM.simps) auto
  qed
  have g3: "rd_expr_loop left toks =
              (case rd_expr (c_consume toks) of
                 Inl e \<Rightarrow> Inl e
               | Inr (right, r) \<Rightarrow>
                   rd_expr_loop (AST_make (c_next toks) (Some left) (Some right)) r)"
    if "type (c_next toks) = TOK_PLUS \<or> type (c_next toks) = TOK_MINUS" for left toks
    using that by (subst rd_expr_loop.simps) simp
  have g4: "rd_term_loop left toks =
              (case rd_term (c_consume toks) of
                 Inl e \<Rightarrow> Inl e
               | Inr (right, r) \<Rightarrow>
                   rd_term_loop (AST_make (c_next toks) (Some left) (Some right)) r)"
    if "type (c_next toks) = TOK_TIMES \<or> type (c_next toks) = TOK_DIVIDE" for left toks
    using that by (subst rd_term_loop.simps) simp
  show ?thesis
    apply (intro conjI allI impI)
               apply (rule e1)
              apply (rule e2)
             apply (rule e3)
            apply (rule e4)
           apply (rule c1)
          apply (rule c2)
         apply (rule c3)
        apply (rule c4)
       apply (erule g1)
      apply (erule g2)
     apply (erule g3)
    apply (erule g4)
    done
qed

theorem C8_rpn_precedence_right_associative_witness:
  "rpn_TERM [\<lparr>tok_t = TN, tok_v = Num (1::int)\<rparr>, \<lparr>tok_t = TO, tok_v = Sym ''-''\<rparr>,
             \<lparr>tok_t = TN, tok_v = Num 2\<rparr>] =
     Inr (Leaf (Num 1), [\<lparr>tok_t = TO, tok_v = Sym ''-''\<rparr>, \<lparr>tok_t = TN, tok_v = Num 2\<rparr>])
   \<and> next_tok [\<lparr>tok_t = TO, tok_v = Sym ''-''\<rparr>, \<lparr>tok_t = TN, tok_v = Num (2::int)\<rparr>] =
       Some \<lparr>tok_t = TO, tok_v = Sym ''-''\<rparr>
   \<and> match_value \<lparr>tok_t = TO, tok_v = (Sym ''-'' :: int tok_val)\<rparr> (Sym ''-'')
   \<and> parse_op [\<lparr>tok_t = TO, tok_v = Sym ''-''\<rparr>, \<lparr>tok_t = TN, tok_v = Num (2::int)\<rparr>] =
       Inr (Sym ''-'', [\<lparr>tok_t = TN, tok_v = Num 2\<rparr>])
   \<and> rpn_EXPR [\<lparr>tok_t = TN, tok_v = Num (1::int)\<rparr>, \<lparr>tok_t = TO, tok_v = Sym ''-''\<rparr>,
               \<lparr>tok_t = TN, tok_v = Num 2\<rparr>] =
       (case rpn_EXPR [\<lparr>tok_t = TN, tok_v = Num 2\<rparr>] of
          Inl e \<Rightarrow> Inl e
        | Inr (t, r2) \<Rightarrow> Inr (Node (Sym ''-'') (Leaf (Num 1)) t, r2))
   \<and> rpn_FACT [\<lparr>tok_t = TN, tok_v = Num (1::int)\<rparr>, \<lparr>tok_t = TO, tok_v = Sym ''*''\<rparr>,
               \<lparr>tok_t = TN, tok_v = Num 2\<rparr>] =
     Inr (Leaf (Num 1), [\<lparr>tok_t = TO, tok_v = Sym ''*''\<rparr>, \<lparr>tok_t = TN, tok_v = Num 2\<rparr>])
   \<and> next_tok [\<lparr>tok_t = TO, tok_v = Sym ''*''\<rparr>, \<lparr>tok_t = TN, tok_v = Num (2::int)\<rparr>] =
       Some \<lparr>tok_t = TO, tok_v = Sym ''*''\<rparr>
   \<and> match_value \<lparr>tok_t = TO, tok_v = (Sym ''*'' :: int tok_val)\<rparr> (Sym ''*'')
   \<and> parse_op [\<lparr>tok_t = TO, tok_v = Sym ''*''\<rparr>, \<lparr>tok_t = TN, tok_v = Num (2::int)\<rparr>] =
       Inr (Sym ''*'', [\<lparr>tok_t = TN, tok_v = Num 2\<rparr>])
   \<and> rpn_TERM [\<lparr>tok_t = TN, tok_v = Num (1::int)\<rparr>, \<lparr>tok_t = TO, tok_v = Sym ''*''\<rparr>,
               \<lparr>tok_t = TN, tok_v = Num 2\<rparr>] =
       (case rpn_TERM [\<lparr>tok_t = TN, tok_v = Num 2\<rparr>] of
          Inl e \<Rightarrow> Inl e
        | Inr (t, r2) \<Rightarrow> Inr (Node (Sym ''*'') (Leaf (Num 1)) t, r2))
   \<and> type (c_next [\<lparr>type = TOK_PLUS, word = ''+''\<rparr>, \<lparr>type = TOK_VAL, word = ''2''\<rparr>]) =
       TOK_PLUS
   \<and> rd_expr_loop (AST_make \<lparr>type = TOK_VAL, word = ''1''\<rparr> None None)
        [\<lparr>type = TOK_PLUS, word = ''+''\<rparr>, \<lparr>type = TOK_VAL, word = ''2''\<rparr>] =
       (case rd_expr (c_consume [\<lparr>type = TOK_PLUS, word = ''+''\<rparr>,
                                 \<lparr>type = TOK_VAL, word = ''2''\<rparr>]) of
          Inl e \<Rightarrow> Inl e
        | Inr (right, r) \<Rightarrow>
            rd_expr_loop
              (AST_make (c_next [\<lparr>type = TOK_PLUS, word = ''+''\<rparr>,
                                 \<lparr>type = TOK_VAL, word = ''2''\<rparr>])
                (Some (AST_make \<lparr>type = TOK_VAL, word = ''1''\<rparr> None None)) (Some right)) r)
   \<and> type (c_next [\<lparr>type = TOK_TIMES, word = ''*''\<rparr>, \<lparr>type = TOK_VAL, word = ''2''\<rparr>]) =
       TOK_TIMES
   \<and> rd_term_loop (AST_make \<lparr>type = TOK_VAL, word = ''1''\<rparr> None None)
        [\<lparr>type = TOK_TIMES, word = ''*''\<rparr>, \<lparr>type = TOK_VAL, word = ''2''\<rparr>] =
       (case rd_term (c_consume [\<lparr>type = TOK_TIMES, word = ''*''\<rparr>,
                                 \<lparr>type = TOK_VAL, word = ''2''\<rparr>]) of
          Inl e \<Rightarrow> Inl e
        | Inr (right, r) \<Rightarrow>
            rd_term_loop
              (AST_make (c_next [\<lparr>type = TOK_TIMES, word = ''*''\<rparr>,
                                 \<lparr>type = TOK_VAL, word = ''2''\<rparr>])
                (Some (AST_make \<lparr>type = TOK_VAL, word = ''1''\<rparr> None None)) (Some right)) r)"
proof -
  let ?n1 = "\<lparr>tok_t = TN, tok_v = Num (1::int)\<rparr>"
  let ?n2 = "\<lparr>tok_t = TN, tok_v = Num (2::int)\<rparr>"
  let ?mi = "\<lparr>tok_t = TO, tok_v = (Sym ''-'' :: int tok_val)\<rparr>"
  let ?ti = "\<lparr>tok_t = TO, tok_v = (Sym ''*'' :: int tok_val)\<rparr>"
  let ?v1 = "AST_make \<lparr>type = TOK_VAL, word = ''1''\<rparr> None None"
  let ?cp = "[\<lparr>type = TOK_PLUS, word = ''+''\<rparr>, \<lparr>type = TOK_VAL, word = ''2''\<rparr>]"
  let ?ct = "[\<lparr>type = TOK_TIMES, word = ''*''\<rparr>, \<lparr>type = TOK_VAL, word = ''2''\<rparr>]"
  note all = C8_rpn_precedence_right_associative
  have a1: "rpn_TERM [?n1, ?mi, ?n2] = Inr (Leaf (Num 1), [?mi, ?n2])" by code_simp
  have a2: "next_tok [?mi, ?n2] = Some ?mi" by code_simp
  have a3: "match_value ?mi (Sym ''-'')" by code_simp
  have a4: "parse_op [?mi, ?n2] = Inr (Sym ''-'', [?n2])" by code_simp
  from all have "\<forall>toks trm r0 y op r1.
        rpn_TERM toks = Inr (trm, r0) \<and> next_tok r0 = Some y
        \<and> (match_value y (Sym ''+'') \<or> match_value y (Sym ''-''))
        \<and> parse_op r0 = Inr (op, r1)
        \<longrightarrow> rpn_EXPR toks =
              (case rpn_EXPR r1 of
                 Inl e \<Rightarrow> Inl e
               | Inr (t, r2) \<Rightarrow> Inr (Node op trm t, (r2 :: int token list)))"
    by (elim conjE)
  then have a5: "rpn_EXPR [?n1, ?mi, ?n2] =
       (case rpn_EXPR [?n2] of
          Inl e \<Rightarrow> Inl e
        | Inr (t, r2) \<Rightarrow> Inr (Node (Sym ''-'') (Leaf (Num 1)) t, r2))"
    using a1 a2 a3 a4 by blast
  have b1: "rpn_FACT [?n1, ?ti, ?n2] = Inr (Leaf (Num 1), [?ti, ?n2])" by code_simp
  have b2: "next_tok [?ti, ?n2] = Some ?ti" by code_simp
  have b3: "match_value ?ti (Sym ''*'')" by code_simp
  have b4: "parse_op [?ti, ?n2] = Inr (Sym ''*'', [?n2])" by code_simp
  from all have "\<forall>toks fct r0 y op r1.
        rpn_FACT toks = Inr (fct, r0) \<and> next_tok r0 = Some y
        \<and> (match_value y (Sym ''*'') \<or> match_value y (Sym ''/''))
        \<and> parse_op r0 = Inr (op, r1)
        \<longrightarrow> rpn_TERM toks =
              (case rpn_TERM r1 of
                 Inl e \<Rightarrow> Inl e
               | Inr (t, r2) \<Rightarrow> Inr (Node op fct t, (r2 :: int token list)))"
    by (elim conjE)
  then have b5: "rpn_TERM [?n1, ?ti, ?n2] =
       (case rpn_TERM [?n2] of
          Inl e \<Rightarrow> Inl e
        | Inr (t, r2) \<Rightarrow> Inr (Node (Sym ''*'') (Leaf (Num 1)) t, r2))"
    using b1 b2 b3 b4 by blast
  have c1: "type (c_next ?cp) = TOK_PLUS" by code_simp
  from all have "\<forall>left toks.
        type (c_next toks) = TOK_PLUS \<or> type (c_next toks) = TOK_MINUS
        \<longrightarrow> rd_expr_loop left toks =
              (case rd_expr (c_consume toks) of
                 Inl e \<Rightarrow> Inl e
               | Inr (right, r) \<Rightarrow>
                   rd_expr_loop (AST_make (c_next toks) (Some left) (Some right)) r)"
    by (elim conjE)
  then have c2: "rd_expr_loop ?v1 ?cp =
       (case rd_expr (c_consume ?cp) of
          Inl e \<Rightarrow> Inl e
        | Inr (right, r) \<Rightarrow>
            rd_expr_loop (AST_make (c_next ?cp) (Some ?v1) (Some right)) r)"
    using c1 by blast
  have d1: "type (c_next ?ct) = TOK_TIMES" by code_simp
  from all have "\<forall>left toks.
        type (c_next toks) = TOK_TIMES \<or> type (c_next toks) = TOK_DIVIDE
        \<longrightarrow> rd_term_loop left toks =
              (case rd_term (c_consume toks) of
                 Inl e \<Rightarrow> Inl e
               | Inr (right, r) \<Rightarrow>
                   rd_term_loop (AST_make (c_next toks) (Some left) (Some right)) r)"
    by (elim conjE)
  then have d2: "rd_term_loop ?v1 ?ct =
       (case rd_term (c_consume ?ct) of
          Inl e \<Rightarrow> Inl e
        | Inr (right, r) \<Rightarrow>
            rd_term_loop (AST_make (c_next ?ct) (Some ?v1) (Some right)) r)"
    using d1 by blast
  show ?thesis
    by (intro conjI) (rule a1 a2 a3 a4 a5 b1 b2 b3 b4 b5 c1 c2 d1 d2)+
qed

lemma rnn_right_associated:
  "\<forall>t r. rnn_E (toks :: 'n token list) = Inr (t, r) \<longrightarrow> right_associated t"
  "\<forall>op t r. rnn_R (toks' :: 'n token list) = Inr (Some (op, t), r) \<longrightarrow> right_associated t"
proof (induction toks and toks' rule: rnn_E_rnn_R.induct)
  case (1 toks)
  show ?case
  proof (intro allI impI)
    fix t r
    assume eq: "rnn_E toks = Inr (t, r)"
    from eq obtain x left r0 right where x: "next_tok toks = Some x"
      and n: "match_type x TN" and p: "parse_num toks = Inr (left, r0)"
      and R: "rnn_R r0 = Inr (right, r)"
      by (subst (asm) rnn_E.simps) (auto split: option.splits if_splits sum.splits)
    show "right_associated t"
    proof (cases right)
      case None
      with eq x n p R have "t = Leaf left" by (subst (asm) rnn_E.simps) simp
      then show ?thesis by simp
    next
      case (Some a)
      obtain op rt where a: "a = (op, rt)" by (cases a)
      with Some eq x n p R have t: "t = Node op (Leaf left) rt"
        by (subst (asm) rnn_E.simps) simp
      from "1.IH"[OF x n p refl] R Some a have "right_associated rt" by blast
      with t show ?thesis by simp
    qed
  qed
next
  case (2 toks)
  show ?case
  proof (intro allI impI)
    fix op t r
    assume eq: "rnn_R toks = Inr (Some (op, t), r)"
    from eq obtain x op0 r0 where x: "next_tok toks = Some x"
      and o: "match_type x TO" and p: "parse_op toks = Inr (op0, r0)"
      and E: "rnn_E r0 = Inr (t, r)"
      by (subst (asm) rnn_R.simps) (auto split: option.splits if_splits sum.splits)
    from "2.IH"[OF x o p refl] E show "right_associated t" by blast
  qed
qed

text \<open>
  C5: the right-associative parser without precedence returns a right-associated tree
  for every input it accepts, whatever the operators are; \<open>1 + 2 + 3\<close> parses to the
  sum of 1 and the sum of 2 and 3.
\<close>

theorem C5_rnn_right_associated:
  "(\<forall>s2n line t. parse_infix_rnn s2n line = Inr t \<longrightarrow> right_associated t)
   \<and> parse_infix_rnn string_to_number ''1 + 2 + 3'' =
     Inr (Node (Sym ''+'') (Leaf (Num 1)) (Node (Sym ''+'') (Leaf (Num 2)) (Leaf (Num 3))))
   \<and> parse_infix_rnn string_to_number ''1 * 2 + 3'' =
     Inr (Node (Sym ''*'') (Leaf (Num 1)) (Node (Sym ''+'') (Leaf (Num 2)) (Leaf (Num 3))))
   \<and> parse_infix_rnn string_to_number ''1 - 2 / 3 - 4'' =
     Inr (Node (Sym ''-'') (Leaf (Num 1))
           (Node (Sym ''/'') (Leaf (Num 2)) (Node (Sym ''-'') (Leaf (Num 3)) (Leaf (Num 4)))))"
proof (intro conjI allI impI)
  fix s2n :: "string \<Rightarrow> 'a option" and line t
  assume "parse_infix_rnn s2n line = Inr t"
  then obtain toks r where "rnn_E (toks :: 'a token list) = Inr (t, r)"
    by (auto simp: parse_infix_rnn_def parse_infix_rnn_tokens_def
        split: sum.splits if_splits)
  with rnn_right_associated(1)[of toks] show "right_associated t" by blast
next
  show "parse_infix_rnn string_to_number ''1 + 2 + 3'' =
     Inr (Node (Sym ''+'') (Leaf (Num 1)) (Node (Sym ''+'') (Leaf (Num 2)) (Leaf (Num 3))))"
    by code_simp
next
  show "parse_infix_rnn string_to_number ''1 * 2 + 3'' =
     Inr (Node (Sym ''*'') (Leaf (Num 1)) (Node (Sym ''+'') (Leaf (Num 2)) (Leaf (Num 3))))"
    by code_simp
next
  show "parse_infix_rnn string_to_number ''1 - 2 / 3 - 4'' =
     Inr (Node (Sym ''-'') (Leaf (Num 1))
           (Node (Sym ''/'') (Leaf (Num 2)) (Node (Sym ''-'') (Leaf (Num 3)) (Leaf (Num 4)))))"
    by code_simp
qed

theorem C5_rnn_right_associated_witness:
  "parse_infix_rnn string_to_number ''4 / 2 - 1'' =
     Inr (Node (Sym ''/'') (Leaf (Num 4)) (Node (Sym ''-'') (Leaf (Num 2)) (Leaf (Num 1))))
   \<and> right_associated
       (Node (Sym ''/'') (Leaf (Num (4::int))) (Node (Sym ''-'') (Leaf (Num 2)) (Leaf (Num 1))))"
proof -
  have p: "parse_infix_rnn string_to_number ''4 / 2 - 1'' =
     Inr (Node (Sym ''/'') (Leaf (Num 4)) (Node (Sym ''-'') (Leaf (Num 2)) (Leaf (Num 1))))"
    by code_simp
  from C5_rnn_right_associated have
    "\<forall>s2n line t. parse_infix_rnn s2n line = Inr (t :: int tree) \<longrightarrow> right_associated t"
    by (elim conjE)
  with p have "right_associated
       (Node (Sym ''/'') (Leaf (Num (4::int))) (Node (Sym ''-'') (Leaf (Num 2)) (Leaf (Num 1))))"
    by blast
  with p show ?thesis by (intro conjI)
qed

section \<open>Claims about the postfix parser\<close>

text \<open>
  C6: in the postfix parser an operator token met with fewer than two trees on the
  stack fails with \<open>MissingArguments\<close>. When all the tokens are consumed, an empty
  stack fails with \<open>MissingTokens\<close>, a stack of more than one tree fails with
  \<open>ExtraTokens\<close>, and a stack of exactly one tree gives that tree as the result.
\<close>

theorem C6_postfix_stack_errors:
  "(\<forall>stk x rest. match_type x TO \<and> length stk < 2
      \<longrightarrow> postfix_parse_expr stk (x # rest) = Inl MissingArguments)
   \<and> (\<forall>stk. postfix_parse_expr stk [] = Inr stk)
   \<and> (\<forall>toks. postfix_parse_expr [] toks = Inr []
      \<longrightarrow> parse_postfix_tokens toks = Inl MissingTokens)
   \<and> (\<forall>toks stk. postfix_parse_expr [] toks = Inr stk \<and> 1 < length stk
      \<longrightarrow> parse_postfix_tokens toks = Inl ExtraTokens)
   \<and> (\<forall>toks t. postfix_parse_expr [] toks = Inr [t]
      \<longrightarrow> parse_postfix_tokens toks = Inr t)
   \<and> parse_postfix string_to_number ''1 +'' = Inl MissingArguments
   \<and> parse_postfix string_to_number ''+'' = Inl MissingArguments
   \<and> parse_postfix string_to_number '''' = Inl MissingTokens
   \<and> parse_postfix string_to_number ''1 2'' = Inl ExtraTokens
   \<and> parse_postfix string_to_number ''1 2 +'' =
       Inr (Node (Sym ''+'') (Leaf (Num 1)) (Leaf (Num 2)))
   \<and> parse_postfix string_to_number ''1 2 3 * +'' =
       Inr (Node (Sym ''+'') (Leaf (Num 1)) (Node (Sym ''*'') (Leaf (Num 2)) (Leaf (Num 3))))"
proof -
  have g1: "postfix_parse_expr stk (x # rest) = Inl MissingArguments"
    if h: "match_type x TO \<and> length stk < 2"
    for stk :: "'n tree list" and x rest
  proof -
    from h have nn: "\<not> match_type x TN" by (simp add: match_type_def)
    from h have "stk = [] \<or> (\<exists>a. stk = [a])"
      by (cases stk) (auto simp: less_Suc_eq_0_disj)
    with h nn show ?thesis
      by (subst postfix_parse_expr.simps) (auto simp: next_tok_def)
  qed
  have g2: "postfix_parse_expr stk [] = Inr stk" for stk :: "'n tree list"
    by (subst postfix_parse_expr.simps) (simp add: next_tok_def)
  have g3: "parse_postfix_tokens toks = Inl MissingTokens"
    if "postfix_parse_expr [] toks = Inr []" for toks :: "'n token list"
    using that by (simp add: parse_postfix_tokens_def postfix_result_def)
  have g4: "parse_postfix_tokens toks = Inl ExtraTokens"
    if "postfix_parse_expr [] toks = Inr stk \<and> 1 < length stk"
    for toks :: "'n token list" and stk
    using that by (cases stk) (auto simp: parse_postfix_tokens_def postfix_result_def)
  have g5: "parse_postfix_tokens toks = Inr t"
    if "postfix_parse_expr [] toks = Inr [t]" for toks :: "'n token list" and t
    using that by (simp add: parse_postfix_tokens_def postfix_result_def)
  have e1: "parse_postfix string_to_number ''1 +'' = Inl MissingArguments" by code_simp
  have e2: "parse_postfix string_to_number ''+'' = Inl MissingArguments" by code_simp
  have e3: "parse_postfix string_to_number '''' = Inl MissingTokens" by code_simp
  have e4: "parse_postfix string_to_number ''1 2'' = Inl ExtraTokens" by code_simp
  have e5: "parse_postfix string_to_number ''1 2 +'' =
       Inr (Node (Sym ''+'') (Leaf (Num 1)) (Leaf (Num 2)))" by code_simp
  have e6: "parse_postfix string_to_number ''1 2 3 * +'' =
       Inr (Node (Sym ''+'') (Leaf (Num 1)) (Node (Sym ''*'') (Leaf (Num 2)) (Leaf (Num 3))))"
    by code_simp
  show ?thesis
    apply (intro conjI allI impI)
              apply (erule g1)
             apply (rule g2)
            apply (erule g3)
           apply (erule g4)
          apply (erule g5)
         apply (rule e1)
        apply (rule e2)
       apply (rule e3)
      apply (rule e4)
     apply (rule e5)
    apply (rule e6)
    done
qed

theorem C6_postfix_stack_errors_witness:
  "match_type \<lparr>tok_t = TO, tok_v = (Sym ''+'' :: int tok_val)\<rparr> TO
   \<and> length [Leaf (Num (1::int))] < 2
   \<and> postfix_parse_expr [Leaf (Num (1::int))] [\<lparr>tok_t = TO, tok_v = Sym ''+''\<rparr>] =
       Inl MissingArguments
   \<and> postfix_parse_expr [] ([] :: int token list) = Inr []
   \<and> parse_postfix_tokens ([] :: int token list) = Inl MissingTokens
   \<and> postfix_parse_expr [] [\<lparr>tok_t = TN, tok_v = Num (1::int)\<rparr>, \<lparr>tok_t = TN, tok_v = Num 2\<rparr>] =
       Inr [Leaf (Num 2), Leaf (Num 1)]
   \<and> 1 < length [Leaf (Num (2::int)), Leaf (Num 1)]
   \<and> parse_postfix_tokens [\<lparr>tok_t = TN, tok_v = Num (1::int)\<rparr>, \<lparr>tok_t = TN, tok_v = Num 2\<rparr>] =
       Inl ExtraTokens
   \<and> postfix_parse_expr [] [\<lparr>tok_t = TN, tok_v = Num (1::int)\<rparr>] = Inr [Leaf (Num 1)]
   \<and> parse_postfix_tokens [\<lparr>tok_t = TN, tok_v = Num (1::int)\<rparr>] = Inr (Leaf (Num 1))"
proof -
  let ?n1 = "\<lparr>tok_t = TN, tok_v = Num (1::int)\<rparr>"
  let ?n2 = "\<lparr>tok_t = TN, tok_v = Num (2::int)\<rparr>"
  let ?pl = "\<lparr>tok_t = TO, tok_v = (Sym ''+'' :: int tok_val)\<rparr>"
  note all = C6_postfix_stack_errors
  have a1: "match_type ?pl TO" by code_simp
  have a2: "length [Leaf (Num (1::int))] < 2" by simp
  from all have "\<forall>stk x rest. match_type x TO \<and> length stk < 2
      \<longrightarrow> postfix_parse_expr stk (x # rest) = (Inl MissingArguments :: error + int tree list)"
    by (elim conjE)
  with a1 a2 have a3: "postfix_parse_expr [Leaf (Num (1::int))] [?pl] = Inl MissingArguments"
    by blast
  have b1: "postfix_parse_expr [] ([] :: int token list) = Inr []" by code_simp
  from all have "\<forall>toks. postfix_parse_expr [] toks = Inr []
      \<longrightarrow> parse_postfix_tokens (toks :: int token list) = Inl MissingTokens"
    by (elim conjE)
  with b1 have b2: "parse_postfix_tokens ([] :: int token list) = Inl MissingTokens"
    by blast
  have c1: "postfix_parse_expr [] [?n1, ?n2] = Inr [Leaf (Num 2), Leaf (Num 1)]" by code_simp
  have c2: "1 < length [Leaf (Num (2::int)), Leaf (Num 1)]" by simp
  from all have "\<forall>toks stk. postfix_parse_expr [] toks = Inr stk \<and> 1 < length stk
      \<longrightarrow> parse_postfix_tokens (toks :: int token list) = Inl ExtraTokens"
    by (elim conjE)
  with c1 c2 have c3: "parse_postfix_tokens [?n1, ?n2] = Inl ExtraTokens" by blast
  have d1: "postfix_parse_expr [] [?n1] = Inr [Leaf (Num 1)]" by code_simp
  from all have "\<forall>toks t. postfix_parse_expr [] toks = Inr [t]
      \<longrightarrow> parse_postfix_tokens (toks :: int token list) = Inr t"
    by (elim conjE)
  with d1 have d2: "parse_postfix_tokens [?n1] = Inr (Leaf (Num 1))" by blast
  show ?thesis
    by (intro conjI) (rule a1 a2 a3 b1 b2 c1 c2 c3 d1 d2)+
qed

section \<open>Claims about all accepted inputs\<close>

lemma parse_num_count:
  "parse_num toks = Inr (v, r) \<Longrightarrow> count_numbers toks = Suc (count_numbers r)"
  by (cases toks)
    (auto simp: parse_num_def next_tok_def consume_def match_type_def count_numbers_def
      split: if_splits)

lemma parse_op_count:
  "parse_op toks = Inr (v, r) \<Longrightarrow> count_numbers toks = count_numbers r"
  by (cases toks)
    (auto simp: parse_op_def next_tok_def consume_def match_type_def count_numbers_def
      split: if_splits)

lemma prefix_parse_expr_count:
  "prefix_parse_expr toks = Inr (t, r) \<Longrightarrow> leaves t + count_numbers r = count_numbers toks"
proof (induction toks arbitrary: t r rule: prefix_parse_expr.induct)
  case (1 toks)
  from "1.prems" obtain x where x: "next_tok toks = Some x"
    by (subst (asm) prefix_parse_expr.simps) (auto split: option.splits)
  show ?case
  proof (cases "match_type x TN")
    case True
    with "1.prems" x obtain v where "parse_num toks = Inr (v, r)" and "t = Leaf v"
      by (subst (asm) prefix_parse_expr.simps) (auto split: sum.splits)
    then show ?thesis using parse_num_count[of toks v r] by simp
  next
    case False
    with "1.prems" x have o: "match_type x TO"
      by (subst (asm) prefix_parse_expr.simps) (auto split: if_splits)
    with "1.prems" x False obtain op r0 l r1 rr where
      a: "parse_op toks = Inr (op, r0)" and b: "prefix_parse_expr r0 = Inr (l, r1)"
      and c: "prefix_parse_expr r1 = Inr (rr, r)" and t: "t = Node op l rr"
      by (subst (asm) prefix_parse_expr.simps) (auto split: sum.splits)
    from "1.IH"(1)[OF x False o a refl b]
    have "leaves l + count_numbers r1 = count_numbers r0" .
    moreover from "1.IH"(2)[OF x False o a refl b refl c]
    have "leaves rr + count_numbers r = count_numbers r1" .
    ultimately show ?thesis using parse_op_count[OF a] t by simp
  qed
qed

lemma postfix_parse_expr_count:
  "postfix_parse_expr stk toks = Inr stk' \<Longrightarrow>
     sum_list (map leaves stk') = sum_list (map leaves stk) + count_numbers toks"
proof (induction stk toks arbitrary: stk' rule: postfix_parse_expr.induct)
  case (1 stk toks)
  show ?case
  proof (cases "next_tok toks")
    case None
    then have "toks = []" by (auto simp: next_tok_def split: list.splits)
    with "1.prems" None show ?thesis
      by (subst (asm) postfix_parse_expr.simps) (simp add: count_numbers_def)
  next
    case (Some x)
    show ?thesis
    proof (cases "match_type x TN")
      case True
      with "1.prems" Some obtain v r where p: "parse_num toks = Inr (v, r)"
        and q: "postfix_parse_expr (Leaf v # stk) r = Inr stk'"
        by (subst (asm) postfix_parse_expr.simps) (auto split: sum.splits)
      from "1.IH"(1)[OF Some True p refl q] parse_num_count[OF p] show ?thesis by simp
    next
      case False
      with "1.prems" Some have o: "match_type x TO"
        by (subst (asm) postfix_parse_expr.simps) (auto split: if_splits)
      with "1.prems" Some False obtain t1 t2 below op r where s: "stk = t1 # t2 # below"
        and p: "parse_op toks = Inr (op, r)"
        and q: "postfix_parse_expr (Node op t2 t1 # below) r = Inr stk'"
        by (subst (asm) postfix_parse_expr.simps) (auto split: sum.splits list.splits)
      from s have s': "stk = t1 # (t2 # below)" and s'': "t2 # below = t2 # below" by simp_all
      from "1.IH"(2)[OF Some False o s' s'' p refl q] parse_op_count[OF p] s
      show ?thesis by simp
    qed
  qed
qed

lemma consume_count:
  "next_tok toks = Some y \<Longrightarrow> \<not> match_type y TN \<Longrightarrow>
     count_numbers (consume toks) = count_numbers toks"
  by (cases toks) (auto simp: next_tok_def consume_def match_type_def count_numbers_def)

lemma lpp_count:
  "\<forall>t r. lpp_E (a :: 'n token list) = Inr (t, r) \<longrightarrow>
     leaves t + count_numbers r = count_numbers a"
  "\<forall>el r. lpp_EL (b :: 'n token list) = Inr (el, r) \<longrightarrow>
     (case el of None \<Rightarrow> 0 | Some (op, u) \<Rightarrow> leaves u) + count_numbers r = count_numbers b"
  "\<forall>t r. lpp_T (c :: 'n token list) = Inr (t, r) \<longrightarrow>
     leaves t + count_numbers r = count_numbers c"
  "\<forall>el r. lpp_TL (d :: 'n token list) = Inr (el, r) \<longrightarrow>
     (case el of None \<Rightarrow> 0 | Some (op, u) \<Rightarrow> leaves u) + count_numbers r = count_numbers d"
  "\<forall>t r. lpp_F (e :: 'n token list) = Inr (t, r) \<longrightarrow>
     leaves t + count_numbers r = count_numbers e"
proof (induction a and b and c and d and e rule: lpp_E_lpp_EL_lpp_T_lpp_TL_lpp_F.induct)
  case (1 toks)
  show ?case
  proof (intro allI impI)
    fix t r
    assume eq: "lpp_E toks = Inr (t, r)"
    from eq obtain x t0 r0 el where x: "next_tok toks = Some x"
      and T: "lpp_T toks = Inr (t0, r0)" and EL: "lpp_EL r0 = Inr (el, r)"
      by (subst (asm) lpp_E.simps) (auto split: option.splits sum.splits prod.splits)
    from "1.IH"(1)[OF x] T have c1: "leaves t0 + count_numbers r0 = count_numbers toks"
      by blast
    from "1.IH"(2)[OF x T refl] EL
    have c2: "(case el of None \<Rightarrow> 0 | Some (op, u) \<Rightarrow> leaves u) + count_numbers r
        = count_numbers r0"
      by blast
    from eq x T EL have "leaves t = leaves t0 + (case el of None \<Rightarrow> 0 | Some (op, u) \<Rightarrow> leaves u)"
      by (subst (asm) lpp_E.simps) (auto split: option.splits)
    with c1 c2 show "leaves t + count_numbers r = count_numbers toks" by simp
  qed
next
  case (2 toks)
  show ?case
  proof (intro allI impI)
    fix el r
    assume eq: "lpp_EL toks = Inr (el, r)"
    show "(case el of None \<Rightarrow> 0 | Some (op, u) \<Rightarrow> leaves u) + count_numbers r
        = count_numbers toks"
    proof (cases "next_tok toks")
      case None
      with eq show ?thesis by (subst (asm) lpp_EL.simps) auto
    next
      case (Some x)
      show ?thesis
      proof (cases "match_value x (Sym ''+'') \<or> match_value x (Sym ''-'')")
        case False
        with Some eq show ?thesis by (subst (asm) lpp_EL.simps) auto
      next
        case True
        with Some eq obtain op r0 t1 r1 el1 where o: "parse_op toks = Inr (op, r0)"
          and T: "lpp_T r0 = Inr (t1, r1)" and EL: "lpp_EL r1 = Inr (el1, r)"
          by (subst (asm) lpp_EL.simps) (auto split: option.splits sum.splits prod.splits)
        from "2.IH"(1)[OF Some True o refl] T
        have c1: "leaves t1 + count_numbers r1 = count_numbers r0" by blast
        from "2.IH"(2)[OF Some True o refl T refl] EL
        have c2: "(case el1 of None \<Rightarrow> 0 | Some (op, u) \<Rightarrow> leaves u) + count_numbers r
            = count_numbers r1"
          by blast
        from eq Some True o T EL
        have "(case el of None \<Rightarrow> 0 | Some (op, u) \<Rightarrow> leaves u)
            = leaves t1 + (case el1 of None \<Rightarrow> 0 | Some (op, u) \<Rightarrow> leaves u)"
          by (subst (asm) lpp_EL.simps) (auto split: option.splits)
        with c1 c2 parse_op_count[OF o] show ?thesis by simp
      qed
    qed
  qed
next
  case (3 toks)
  show ?case
  proof (intro allI impI)
    fix t r
    assume eq: "lpp_T toks = Inr (t, r)"
    from eq obtain x f0 r0 el where x: "next_tok toks = Some x"
      and F: "lpp_F toks = Inr (f0, r0)" and TL: "lpp_TL r0 = Inr (el, r)"
      by (subst (asm) lpp_T.simps) (auto split: option.splits sum.splits prod.splits)
    from "3.IH"(1)[OF x] F have c1: "leaves f0 + count_numbers r0 = count_numbers toks"
      by blast
    from "3.IH"(2)[OF x F refl] TL
    have c2: "(case el of None \<Rightarrow> 0 | Some (op, u) \<Rightarrow> leaves u) + count_numbers r
        = count_numbers r0"
      by blast
    from eq x F TL have "leaves t = leaves f0 + (case el of None \<Rightarrow> 0 | Some (op, u) \<Rightarrow> leaves u)"
      by (subst (asm) lpp_T.simps) (auto split: option.splits)
    with c1 c2 show "leaves t + count_numbers r = count_numbers toks" by simp
  qed
next
  case (4 toks)
  show ?case
  proof (intro allI impI)
    fix el r
    assume eq: "lpp_TL toks = Inr (el, r)"
    show "(case el of None \<Rightarrow> 0 | Some (op, u) \<Rightarrow> leaves u) + count_numbers r
        = count_numbers toks"
    proof (cases "next_tok toks")
      case None
      with eq show ?thesis by (subst (asm) lpp_TL.simps) auto
    next
      case (Some x)
      show ?thesis
      proof (cases "match_value x (Sym ''*'') \<or> match_value x (Sym ''/'')")
        case False
        with Some eq show ?thesis by (subst (asm) lpp_TL.simps) auto
      next
        case True
        with Some eq obtain op r0 f1 r1 el1 where o: "parse_op toks = Inr (op, r0)"
          and F: "lpp_F r0 = Inr (f1, r1)" and TL: "lpp_TL r1 = Inr (el1, r)"
          by (subst (asm) lpp_TL.simps) (auto split: option.splits sum.splits prod.splits)
        from "4.IH"(1)[OF Some True o refl] F
        have c1: "leaves f1 + count_numbers r1 = count_numbers r0" by blast
        from "4.IH"(2)[OF Some True o refl F refl] TL
        have c2: "(case el1 of None \<Rightarrow> 0 | Some (op, u) \<Rightarrow> leaves u) + count_numbers r
            = count_numbers r1"
          by blast
        from eq Some True o F TL
        have "(case el of None \<Rightarrow> 0 | Some (op, u) \<Rightarrow> leaves u)
            = leaves f1 + (case el1 of None \<Rightarrow> 0 | Some (op, u) \<Rightarrow> leaves u)"
          by (subst (asm) lpp_TL.simps) (auto split: option.splits)
        with c1 c2 parse_op_count[OF o] show ?thesis by simp
      qed
    qed
  qed
next
  case (5 toks)
  show ?case
  proof (intro allI impI)
    fix t r
    assume eq: "lpp_F toks = Inr (t, r)"
    from eq obtain x where x: "next_tok toks = Some x"
      by (subst (asm) lpp_F.simps) (auto split: option.splits)
    show "leaves t + count_numbers r = count_numbers toks"
    proof (cases "match_type x TN")
      case True
      with x eq obtain v where "parse_num toks = Inr (v, r)" and "t = Leaf v"
        by (subst (asm) lpp_F.simps) (auto split: sum.splits)
      then show ?thesis using parse_num_count[of toks v r] by simp
    next
      case False
      show ?thesis
      proof (cases "match_type x TRP")
        case notrp: False
        with False x eq show ?thesis
          by (subst (asm) lpp_F.simps) (auto split: if_splits)
      next
        case True
        with False x eq obtain r1 y where E: "lpp_E (consume toks) = Inr (t, r1)"
          and y: "next_tok r1 = Some y" and lp: "match_type y TLP" and r: "r = consume r1"
          by (subst (asm) lpp_F.simps)
            (auto split: option.splits sum.splits prod.splits if_splits)
        from "5.IH"[OF x False True] E
        have "leaves t + count_numbers r1 = count_numbers (consume toks)" by blast
        moreover from lp have "\<not> match_type y TN" by (simp add: match_type_def)
        ultimately show ?thesis
          using consume_count[OF x False] consume_count[OF y] r by simp
      qed
    qed
  qed
qed

lemma leaves_tree_invert: "leaves (tree_invert t) = leaves t"
  by (induction t) simp_all

lemma count_numbers_rev: "count_numbers (rev toks) = count_numbers toks"
  by (simp add: count_numbers_def flip: rev_filter)

lemma is_done_Nil: "is_done r \<Longrightarrow> r = []"
  by (cases r) (simp_all add: is_done_def next_tok_def)

lemma rnn_count:
  "\<forall>t r. rnn_E (a :: 'n token list) = Inr (t, r) \<longrightarrow>
     leaves t + count_numbers r = count_numbers a"
  "\<forall>right r. rnn_R (b :: 'n token list) = Inr (right, r) \<longrightarrow>
     (case right of None \<Rightarrow> 0 | Some (op, u) \<Rightarrow> leaves u) + count_numbers r = count_numbers b"
proof (induction a and b rule: rnn_E_rnn_R.induct)
  case (1 toks)
  show ?case
  proof (intro allI impI)
    fix t r
    assume eq: "rnn_E toks = Inr (t, r)"
    from eq obtain x left r0 right where x: "next_tok toks = Some x"
      and n: "match_type x TN" and p: "parse_num toks = Inr (left, r0)"
      and R: "rnn_R r0 = Inr (right, r)"
      by (subst (asm) rnn_E.simps) (auto split: option.splits if_splits sum.splits)
    from "1.IH"[OF x n p refl] R
    have c: "(case right of None \<Rightarrow> 0 | Some (op, u) \<Rightarrow> leaves u) + count_numbers r
        = count_numbers r0"
      by blast
    from eq x n p R
    have "leaves t = Suc (case right of None \<Rightarrow> 0 | Some (op, u) \<Rightarrow> leaves u)"
      by (subst (asm) rnn_E.simps) (auto split: option.splits)
    with c parse_num_count[OF p] show "leaves t + count_numbers r = count_numbers toks"
      by simp
  qed
next
  case (2 toks)
  show ?case
  proof (intro allI impI)
    fix right r
    assume eq: "rnn_R toks = Inr (right, r)"
    show "(case right of None \<Rightarrow> 0 | Some (op, u) \<Rightarrow> leaves u) + count_numbers r
        = count_numbers toks"
    proof (cases "next_tok toks")
      case None
      with eq show ?thesis by (subst (asm) rnn_R.simps) auto
    next
      case (Some x)
      with eq obtain op0 r0 e where o: "match_type x TO"
        and p: "parse_op toks = Inr (op0, r0)" and E: "rnn_E r0 = Inr (e, r)"
        and right: "right = Some (op0, e)"
        by (subst (asm) rnn_R.simps) (auto split: if_splits sum.splits)
      from "2.IH"[OF Some o p refl] E have "leaves e + count_numbers r = count_numbers r0"
        by blast
      with right parse_op_count[OF p] show ?thesis by simp
    qed
  qed
qed

lemma rpn_FACT_count:
  "rpn_FACT toks = Inr (t, r) \<Longrightarrow> leaves t + count_numbers r = count_numbers toks"
  by (auto simp: rpn_FACT_def split: option.splits if_splits sum.splits
      dest: parse_num_count)

lemma rpn_TERM_count:
  "rpn_TERM toks = Inr (t, r) \<Longrightarrow> leaves t + count_numbers r = count_numbers toks"
proof (induction toks arbitrary: t r rule: rpn_TERM.induct)
  case (1 toks)
  from "1.prems" obtain x fct r0 where x: "next_tok toks = Some x"
    and f: "rpn_FACT toks = Inr (fct, r0)"
    by (subst (asm) rpn_TERM.simps) (auto split: option.splits sum.splits)
  note fc = rpn_FACT_count[OF f]
  show ?case
  proof (cases "next_tok r0")
    case None
    with "1.prems" x f fc show ?thesis
      by (subst (asm) rpn_TERM.simps) simp
  next
    case (Some y)
    show ?thesis
    proof (cases "match_value y (Sym ''*'') \<or> match_value y (Sym ''/'')")
      case False
      with "1.prems" x f fc Some show ?thesis
        by (subst (asm) rpn_TERM.simps) simp
    next
      case True
      with "1.prems" x f Some obtain op r1 u where
        o: "parse_op r0 = Inr (op, r1)" and u: "rpn_TERM r1 = Inr (u, r)"
        and t: "t = Node op fct u"
        by (subst (asm) rpn_TERM.simps) (auto split: sum.splits)
      from "1.IH"[OF x f refl Some True o refl u] parse_op_count[OF o] fc t
      show ?thesis by simp
    qed
  qed
qed

lemma rpn_EXPR_count:
  "rpn_EXPR toks = Inr (t, r) \<Longrightarrow> leaves t + count_numbers r = count_numbers toks"
proof (induction toks arbitrary: t r rule: rpn_EXPR.induct)
  case (1 toks)
  from "1.prems" obtain x trm r0 where x: "next_tok toks = Some x"
    and f: "rpn_TERM toks = Inr (trm, r0)"
    by (subst (asm) rpn_EXPR.simps) (auto split: option.splits sum.splits)
  note fc = rpn_TERM_count[OF f]
  show ?case
  proof (cases "next_tok r0")
    case None
    with "1.prems" x f fc show ?thesis
      by (subst (asm) rpn_EXPR.simps) simp
  next
    case (Some y)
    show ?thesis
    proof (cases "match_value y (Sym ''+'') \<or> match_value y (Sym ''-'')")
      case False
      with "1.prems" x f fc Some show ?thesis
        by (subst (asm) rpn_EXPR.simps) simp
    next
      case True
      with "1.prems" x f Some obtain op r1 u where
        o: "parse_op r0 = Inr (op, r1)" and u: "rpn_EXPR r1 = Inr (u, r)"
        and t: "t = Node op trm u"
        by (subst (asm) rpn_EXPR.simps) (auto split: sum.splits)
      from "1.IH"[OF x f refl Some True o refl u] parse_op_count[OF o] fc t
      show ?thesis by simp
    qed
  qed
qed

text \<open>
  C1: for every input that a parser accepts, the parse consumes all the tokens (no
  token is left, so no \<open>ExtraTokens\<close> error) and the tree has as many leaves as the
  tokenizer produced number tokens for the input. Stated for the prefix parser, the
  postfix parser and the left-associative parser with precedence and parentheses, and
  also for the two right-associative parsers, with any numeric conversion \<open>s2n\<close>.
\<close>

theorem C1_accepted_input_consumed_and_leaves:
  "(\<forall>s2n line t. parse_prefix s2n line = Inr t \<longrightarrow>
      (\<exists>toks. lex_line s2n line = Inr toks \<and> prefix_parse_expr toks = Inr (t, [])
         \<and> leaves t = count_numbers toks))
   \<and> (\<forall>s2n line t. parse_postfix s2n line = Inr t \<longrightarrow>
      (\<exists>toks. lex_line s2n line = Inr toks \<and> postfix_parse_expr [] toks = Inr [t]
         \<and> leaves t = count_numbers toks))
   \<and> (\<forall>s2n line t. parse_infix_lpp s2n line = Inr t \<longrightarrow>
      (\<exists>toks u. lex_line s2n line = Inr toks \<and> lpp_E (rev toks) = Inr (u, [])
         \<and> t = tree_invert u \<and> leaves t = count_numbers toks))
   \<and> (\<forall>s2n line t. parse_infix_rnn s2n line = Inr t \<longrightarrow>
      (\<exists>toks. lex_line s2n line = Inr toks \<and> rnn_E toks = Inr (t, [])
         \<and> leaves t = count_numbers toks))
   \<and> (\<forall>s2n line t. parse_infix_rpn s2n line = Inr t \<longrightarrow>
      (\<exists>toks. lex_line s2n line = Inr toks \<and> rpn_EXPR toks = Inr (t, [])
         \<and> leaves t = count_numbers toks))"
proof -
  have g1: "\<exists>toks. lex_line s2n line = Inr toks \<and> prefix_parse_expr toks = Inr (t, [])
         \<and> leaves t = count_numbers toks"
    if h: "parse_prefix s2n line = Inr t"
    for s2n :: "string \<Rightarrow> 'n option" and line t
  proof -
    from h obtain toks r where l: "lex_line s2n line = Inr toks"
      and p: "prefix_parse_expr toks = Inr (t, r)" and d: "is_done r"
      by (auto simp: parse_prefix_def parse_prefix_tokens_def split: sum.splits if_splits)
    from d have r: "r = []" by (rule is_done_Nil)
    from prefix_parse_expr_count[OF p] r have "leaves t = count_numbers toks"
      by (simp add: count_numbers_def)
    with l p r show ?thesis by blast
  qed
  have g2: "\<exists>toks. lex_line s2n line = Inr toks \<and> postfix_parse_expr [] toks = Inr [t]
         \<and> leaves t = count_numbers toks"
    if h: "parse_postfix s2n line = Inr t"
    for s2n :: "string \<Rightarrow> 'n option" and line t
  proof -
    from h obtain toks stk where l: "lex_line s2n line = Inr toks"
      and p: "postfix_parse_expr [] toks = Inr stk" and s: "postfix_result stk = Inr t"
      by (auto simp: parse_postfix_def parse_postfix_tokens_def split: sum.splits)
    from s have stk: "stk = [t]"
      by (auto simp: postfix_result_def split: list.splits if_splits)
    from postfix_parse_expr_count[OF p] stk have "leaves t = count_numbers toks" by simp
    with l p stk show ?thesis by blast
  qed
  have g3: "\<exists>toks u. lex_line s2n line = Inr toks \<and> lpp_E (rev toks) = Inr (u, [])
         \<and> t = tree_invert u \<and> leaves t = count_numbers toks"
    if h: "parse_infix_lpp s2n line = Inr t"
    for s2n :: "string \<Rightarrow> 'n option" and line t
  proof -
    from h obtain toks u r where l: "lex_line s2n line = Inr toks"
      and p: "lpp_E (rev toks) = Inr (u, r)" and d: "is_done r" and t: "t = tree_invert u"
      by (auto simp: parse_infix_lpp_def parse_infix_lpp_tokens_def
          split: sum.splits if_splits)
    from d have r: "r = []" by (rule is_done_Nil)
    from lpp_count(1)[of "rev toks"] p r have "leaves u = count_numbers (rev toks)"
      by (auto simp: count_numbers_def)
    with t have "leaves t = count_numbers toks"
      by (simp add: leaves_tree_invert count_numbers_rev)
    with l p r t show ?thesis by blast
  qed
  have g4: "\<exists>toks. lex_line s2n line = Inr toks \<and> rnn_E toks = Inr (t, [])
         \<and> leaves t = count_numbers toks"
    if h: "parse_infix_rnn s2n line = Inr t"
    for s2n :: "string \<Rightarrow> 'n option" and line t
  proof -
    from h obtain toks r where l: "lex_line s2n line = Inr toks"
      and p: "rnn_E toks = Inr (t, r)" and d: "is_done r"
      by (auto simp: parse_infix_rnn_def parse_infix_rnn_tokens_def
          split: sum.splits if_splits)
    from d have r: "r = []" by (rule is_done_Nil)
    from rnn_count(1)[of toks] p r have "leaves t = count_numbers toks"
      by (auto simp: count_numbers_def)
    with l p r show ?thesis by blast
  qed
  have g5: "\<exists>toks. lex_line s2n line = Inr toks \<and> rpn_EXPR toks = Inr (t, [])
         \<and> leaves t = count_numbers toks"
    if h: "parse_infix_rpn s2n line = Inr t"
    for s2n :: "string \<Rightarrow> 'n option" and line t
  proof -
    from h obtain toks r where l: "lex_line s2n line = Inr toks"
      and p: "rpn_EXPR toks = Inr (t, r)" and d: "is_done r"
      by (auto simp: parse_infix_rpn_def parse_infix_rpn_tokens_def
          split: sum.splits if_splits)
    from d have r: "r = []" by (rule is_done_Nil)
    from rpn_EXPR_count[OF p] r have "leaves t = count_numbers toks"
      by (simp add: count_numbers_def)
    with l p r show ?thesis by blast
  qed
  show ?thesis
    apply (intro conjI allI impI)
        apply (erule g1)
       apply (erule g2)
      apply (erule g3)
     apply (erule g4)
    apply (erule g5)
    done
qed

theorem C1_accepted_input_consumed_and_leaves_witness:
  "parse_prefix string_to_number ''+ 1 * 2 3'' =
     Inr (Node (Sym ''+'') (Leaf (Num 1)) (Node (Sym ''*'') (Leaf (Num 2)) (Leaf (Num 3))))
   \<and> (\<exists>toks. lex_line string_to_number ''+ 1 * 2 3'' = Inr toks
        \<and> prefix_parse_expr toks =
            Inr (Node (Sym ''+'') (Leaf (Num 1))
                  (Node (Sym ''*'') (Leaf (Num 2)) (Leaf (Num 3))), [])
        \<and> count_numbers toks = 3)
   \<and> parse_postfix string_to_number ''1 2 3 * +'' =
     Inr (Node (Sym ''+'') (Leaf (Num 1)) (Node (Sym ''*'') (Leaf (Num 2)) (Leaf (Num 3))))
   \<and> (\<exists>toks. lex_line string_to_number ''1 2 3 * +'' = Inr toks
        \<and> postfix_parse_expr [] toks =
            Inr [Node (Sym ''+'') (Leaf (Num 1))
                  (Node (Sym ''*'') (Leaf (Num 2)) (Leaf (Num 3)))]
        \<and> count_numbers toks = 3)
   \<and> parse_infix_lpp string_to_number ''1*2 + 3*(4+5)'' =
     Inr (Node (Sym ''+'')
           (Node (Sym ''*'') (Leaf (Num 1)) (Leaf (Num 2)))
           (Node (Sym ''*'') (Leaf (Num 3))
             (Node (Sym ''+'') (Leaf (Num 4)) (Leaf (Num 5)))))
   \<and> (\<exists>toks u. lex_line string_to_number ''1*2 + 3*(4+5)'' = Inr toks
        \<and> lpp_E (rev toks) = Inr (u, [])
        \<and> count_numbers toks = 5)
   \<and> parse_infix_rnn string_to_number ''1 + 2 * 3'' =
     Inr (Node (Sym ''+'') (Leaf (Num 1)) (Node (Sym ''*'') (Leaf (Num 2)) (Leaf (Num 3))))
   \<and> (\<exists>toks. lex_line string_to_number ''1 + 2 * 3'' = Inr toks
        \<and> rnn_E toks =
            Inr (Node (Sym ''+'') (Leaf (Num 1))
                  (Node (Sym ''*'') (Leaf (Num 2)) (Leaf (Num 3))), [])
        \<and> count_numbers toks = 3)
   \<and> parse_infix_rpn string_to_number ''1 + 2 * 3'' =
     Inr (Node (Sym ''+'') (Leaf (Num 1)) (Node (Sym ''*'') (Leaf (Num 2)) (Leaf (Num 3))))
   \<and> (\<exists>toks. lex_line string_to_number ''1 + 2 * 3'' = Inr toks
        \<and> rpn_EXPR toks =
            Inr (Node (Sym ''+'') (Leaf (Num 1))
                  (Node (Sym ''*'') (Leaf (Num 2)) (Leaf (Num 3))), [])
        \<and> count_numbers toks = 3)"
proof -
  let ?t1 = "Node (Sym ''+'') (Leaf (Num (1::int)))
               (Node (Sym ''*'') (Leaf (Num 2)) (Leaf (Num 3)))"
  let ?t3 = "Node (Sym ''+'')
           (Node (Sym ''*'') (Leaf (Num (1::int))) (Leaf (Num 2)))
           (Node (Sym ''*'') (Leaf (Num 3))
             (Node (Sym ''+'') (Leaf (Num 4)) (Leaf (Num 5))))"
  note all = C1_accepted_input_consumed_and_leaves
  have a: "parse_prefix string_to_number ''+ 1 * 2 3'' = Inr ?t1" by code_simp
  from all have "\<forall>s2n line t. parse_prefix s2n line = Inr (t :: int tree) \<longrightarrow>
      (\<exists>toks. lex_line s2n line = Inr toks \<and> prefix_parse_expr toks = Inr (t, [])
         \<and> leaves t = count_numbers toks)"
    by (elim conjE)
  with a have "\<exists>toks. lex_line string_to_number ''+ 1 * 2 3'' = Inr toks
      \<and> prefix_parse_expr toks = Inr (?t1, []) \<and> leaves ?t1 = count_numbers toks"
    by blast
  then have a': "\<exists>toks. lex_line string_to_number ''+ 1 * 2 3'' = Inr toks
      \<and> prefix_parse_expr toks = Inr (?t1, []) \<and> count_numbers toks = 3"
    by auto
  have b: "parse_postfix string_to_number ''1 2 3 * +'' = Inr ?t1" by code_simp
  from all have "\<forall>s2n line t. parse_postfix s2n line = Inr (t :: int tree) \<longrightarrow>
      (\<exists>toks. lex_line s2n line = Inr toks \<and> postfix_parse_expr [] toks = Inr [t]
         \<and> leaves t = count_numbers toks)"
    by (elim conjE)
  with b have "\<exists>toks. lex_line string_to_number ''1 2 3 * +'' = Inr toks
      \<and> postfix_parse_expr [] toks = Inr [?t1] \<and> leaves ?t1 = count_numbers toks"
    by blast
  then have b': "\<exists>toks. lex_line string_to_number ''1 2 3 * +'' = Inr toks
      \<and> postfix_parse_expr [] toks = Inr [?t1] \<and> count_numbers toks = 3"
    by auto
  have c: "parse_infix_lpp string_to_number ''1*2 + 3*(4+5)'' = Inr ?t3" by code_simp
  from all have "\<forall>s2n line t. parse_infix_lpp s2n line = Inr (t :: int tree) \<longrightarrow>
      (\<exists>toks u. lex_line s2n line = Inr toks \<and> lpp_E (rev toks) = Inr (u, [])
         \<and> t = tree_invert u \<and> leaves t = count_numbers toks)"
    by (elim conjE)
  with c have "\<exists>toks u. lex_line string_to_number ''1*2 + 3*(4+5)'' = Inr toks
      \<and> lpp_E (rev toks) = Inr (u, []) \<and> ?t3 = tree_invert u
      \<and> leaves ?t3 = count_numbers toks"
    by blast
  then have c': "\<exists>toks u. lex_line string_to_number ''1*2 + 3*(4+5)'' = Inr toks
      \<and> lpp_E (rev toks) = Inr (u, []) \<and> count_numbers toks = 5"
    by auto
  have d: "parse_infix_rnn string_to_number ''1 + 2 * 3'' = Inr ?t1" by code_simp
  from all have "\<forall>s2n line t. parse_infix_rnn s2n line = Inr (t :: int tree) \<longrightarrow>
      (\<exists>toks. lex_line s2n line = Inr toks \<and> rnn_E toks = Inr (t, [])
         \<and> leaves t = count_numbers toks)"
    by (elim conjE)
  with d have "\<exists>toks. lex_line string_to_number ''1 + 2 * 3'' = Inr toks
      \<and> rnn_E toks = Inr (?t1, []) \<and> leaves ?t1 = count_numbers toks"
    by blast
  then have d': "\<exists>toks. lex_line string_to_number ''1 + 2 * 3'' = Inr toks
      \<and> rnn_E toks = Inr (?t1, []) \<and> count_numbers toks = 3"
    by auto
  have e: "parse_infix_rpn string_to_number ''1 + 2 * 3'' = Inr ?t1" by code_simp
  from all have "\<forall>s2n line t. parse_infix_rpn s2n line = Inr (t :: int tree) \<longrightarrow>
      (\<exists>toks. lex_line s2n line = Inr toks \<and> rpn_EXPR toks = Inr (t, [])
         \<and> leaves t = count_numbers toks)"
    by (elim conjE)
  with e have "\<exists>toks. lex_line string_to_number ''1 + 2 * 3'' = Inr toks
      \<and> rpn_EXPR toks = Inr (?t1, []) \<and> leaves ?t1 = count_numbers toks"
    by blast
  then have e': "\<exists>toks. lex_line string_to_number ''1 + 2 * 3'' = Inr toks
      \<and> rpn_EXPR toks = Inr (?t1, []) \<and> count_numbers toks = 3"
    by auto
  show ?thesis
    by (intro conjI) (rule a a' b b' c c' d d' e e')+
qed

section \<open>Claims about malformed input\<close>

text \<open>
  The claim C3 says that \<open>(1 + 2\<close> makes the left-associative parser with
  parentheses fail with \<open>UnbalancedParens\<close> and with no other error such as
  \<open>ExtraTokens\<close>. The parser reads the tokens in reverse: \<open>2 + 1\<close> is a complete
  expression, the open parenthesis is left over, and \<open>parse-infix-lpp\<close> reports
  "too many tokens".
\<close>

theorem C3_unmatched_open_counterexample:
  "parse_infix_lpp string_to_number ''(1 + 2'' = Inl ExtraTokens
   \<and> parse_infix_lpp string_to_number ''(1 + 2'' \<noteq> Inl (UnbalancedParens MissingOpen)
   \<and> parse_infix_lpp string_to_number ''(1 + 2'' \<noteq> Inl (UnbalancedParens InvalidOpen)"
  by code_simp

lemma next_tok_append: "next_tok xs = Some y \<Longrightarrow> next_tok (xs @ zs) = Some y"
  by (cases xs) (simp_all add: next_tok_def)

lemma consume_append: "next_tok xs = Some y \<Longrightarrow> consume (xs @ zs) = consume xs @ zs"
  by (cases xs) (simp_all add: next_tok_def consume_def)

lemma parse_op_append:
  "parse_op xs = Inr (v, r) \<Longrightarrow> parse_op (xs @ zs) = Inr (v, r @ zs)"
  by (cases xs) (auto simp: parse_op_def next_tok_def consume_def split: if_splits)

lemma parse_num_append:
  "parse_num xs = Inr (v, r) \<Longrightarrow> parse_num (xs @ zs) = Inr (v, r @ zs)"
  by (cases xs) (auto simp: parse_num_def next_tok_def consume_def split: if_splits)

text \<open>
  A token with a string as its value, such as the open parenthesis of the lexer,
  after the tokens of a successful parse: the parse gives the same result and leaves
  the token behind.
\<close>

lemma lpp_append:
  fixes p :: "'n token"
  assumes p: "tok_v p = Str s"
  shows
    "\<forall>t r. lpp_E (a :: 'n token list) = Inr (t, r) \<longrightarrow> lpp_E (a @ [p]) = Inr (t, r @ [p])"
    "\<forall>el r. lpp_EL (b :: 'n token list) = Inr (el, r) \<longrightarrow> lpp_EL (b @ [p]) = Inr (el, r @ [p])"
    "\<forall>t r. lpp_T (c :: 'n token list) = Inr (t, r) \<longrightarrow> lpp_T (c @ [p]) = Inr (t, r @ [p])"
    "\<forall>el r. lpp_TL (d :: 'n token list) = Inr (el, r) \<longrightarrow> lpp_TL (d @ [p]) = Inr (el, r @ [p])"
    "\<forall>t r. lpp_F (e :: 'n token list) = Inr (t, r) \<longrightarrow> lpp_F (e @ [p]) = Inr (t, r @ [p])"
proof (induction a and b and c and d and e rule: lpp_E_lpp_EL_lpp_T_lpp_TL_lpp_F.induct)
  case (1 toks)
  show ?case
  proof (intro allI impI)
    fix t r
    assume eq: "lpp_E toks = Inr (t, r)"
    from eq obtain x t0 r0 el where x: "next_tok toks = Some x"
      and T: "lpp_T toks = Inr (t0, r0)" and EL: "lpp_EL r0 = Inr (el, r)"
      by (subst (asm) lpp_E.simps) (auto split: option.splits sum.splits prod.splits)
    from "1.IH"(1)[OF x] T have T': "lpp_T (toks @ [p]) = Inr (t0, r0 @ [p])" by blast
    from "1.IH"(2)[OF x T refl] EL have EL': "lpp_EL (r0 @ [p]) = Inr (el, r @ [p])" by blast
    from eq x T EL have res: "t = (case el of None \<Rightarrow> t0 | Some (op, u) \<Rightarrow> Node op t0 u)"
      by (subst (asm) lpp_E.simps) (auto split: option.splits)
    show "lpp_E (toks @ [p]) = Inr (t, r @ [p])"
      using next_tok_append[OF x] T' EL' res
      by (subst lpp_E.simps) (auto split: option.splits)
  qed
next
  case (2 toks)
  show ?case
  proof (intro allI impI)
    fix el r
    assume eq: "lpp_EL toks = Inr (el, r)"
    show "lpp_EL (toks @ [p]) = Inr (el, r @ [p])"
    proof (cases "next_tok toks")
      case None
      then have e: "toks = []" by (auto simp: next_tok_def split: list.splits)
      with eq have "el = None" and "r = []" by (subst (asm) lpp_EL.simps, simp add: next_tok_def)+
      with e p show ?thesis
        by (subst lpp_EL.simps) (simp add: next_tok_def match_value_def)
    next
      case (Some x)
      show ?thesis
      proof (cases "match_value x (Sym ''+'') \<or> match_value x (Sym ''-'')")
        case False
        with Some eq have "el = None" and "r = toks" by (subst (asm) lpp_EL.simps, simp)+
        with False next_tok_append[OF Some] show ?thesis
          by (subst lpp_EL.simps) simp
      next
        case True
        with Some eq obtain op r0 t1 r1 el1 where o: "parse_op toks = Inr (op, r0)"
          and T: "lpp_T r0 = Inr (t1, r1)" and EL: "lpp_EL r1 = Inr (el1, r)"
          by (subst (asm) lpp_EL.simps) (auto split: option.splits sum.splits prod.splits)
        from "2.IH"(1)[OF Some True o refl] T
        have T': "lpp_T (r0 @ [p]) = Inr (t1, r1 @ [p])" by blast
        from "2.IH"(2)[OF Some True o refl T refl] EL
        have EL': "lpp_EL (r1 @ [p]) = Inr (el1, r @ [p])" by blast
        from eq Some True o T EL
        have res: "el = (case el1 of None \<Rightarrow> Some (op, t1)
                         | Some (op2, u) \<Rightarrow> Some (op, Node op2 t1 u))"
          by (subst (asm) lpp_EL.simps) (auto split: option.splits)
        show ?thesis
          using next_tok_append[OF Some] True parse_op_append[OF o] T' EL' res
          by (subst lpp_EL.simps) (auto split: option.splits)
      qed
    qed
  qed
next
  case (3 toks)
  show ?case
  proof (intro allI impI)
    fix t r
    assume eq: "lpp_T toks = Inr (t, r)"
    from eq obtain x f0 r0 el where x: "next_tok toks = Some x"
      and F: "lpp_F toks = Inr (f0, r0)" and TL: "lpp_TL r0 = Inr (el, r)"
      by (subst (asm) lpp_T.simps) (auto split: option.splits sum.splits prod.splits)
    from "3.IH"(1)[OF x] F have F': "lpp_F (toks @ [p]) = Inr (f0, r0 @ [p])" by blast
    from "3.IH"(2)[OF x F refl] TL have TL': "lpp_TL (r0 @ [p]) = Inr (el, r @ [p])" by blast
    from eq x F TL have res: "t = (case el of None \<Rightarrow> f0 | Some (op, u) \<Rightarrow> Node op f0 u)"
      by (subst (asm) lpp_T.simps) (auto split: option.splits)
    show "lpp_T (toks @ [p]) = Inr (t, r @ [p])"
      using next_tok_append[OF x] F' TL' res
      by (subst lpp_T.simps) (auto split: option.splits)
  qed
next
  case (4 toks)
  show ?case
  proof (intro allI impI)
    fix el r
    assume eq: "lpp_TL toks = Inr (el, r)"
    show "lpp_TL (toks @ [p]) = Inr (el, r @ [p])"
    proof (cases "next_tok toks")
      case None
      then have e: "toks = []" by (auto simp: next_tok_def split: list.splits)
      with eq have "el = None" and "r = []" by (subst (asm) lpp_TL.simps, simp add: next_tok_def)+
      with e p show ?thesis
        by (subst lpp_TL.simps) (simp add: next_tok_def match_value_def)
    next
      case (Some x)
      show ?thesis
      proof (cases "match_value x (Sym ''*'') \<or> match_value x (Sym ''/'')")
        case False
        with Some eq have "el = None" and "r = toks" by (subst (asm) lpp_TL.simps, simp)+
        with False next_tok_append[OF Some] show ?thesis
          by (subst lpp_TL.simps) simp
      next
        case True
        with Some eq obtain op r0 f1 r1 el1 where o: "parse_op toks = Inr (op, r0)"
          and F: "lpp_F r0 = Inr (f1, r1)" and TL: "lpp_TL r1 = Inr (el1, r)"
          by (subst (asm) lpp_TL.simps) (auto split: option.splits sum.splits prod.splits)
        from "4.IH"(1)[OF Some True o refl] F
        have F': "lpp_F (r0 @ [p]) = Inr (f1, r1 @ [p])" by blast
        from "4.IH"(2)[OF Some True o refl F refl] TL
        have TL': "lpp_TL (r1 @ [p]) = Inr (el1, r @ [p])" by blast
        from eq Some True o F TL
        have res: "el = (case el1 of None \<Rightarrow> Some (op, f1)
                         | Some (op2, u) \<Rightarrow> Some (op, Node op2 f1 u))"
          by (subst (asm) lpp_TL.simps) (auto split: option.splits)
        show ?thesis
          using next_tok_append[OF Some] True parse_op_append[OF o] F' TL' res
          by (subst lpp_TL.simps) (auto split: option.splits)
      qed
    qed
  qed
next
  case (5 toks)
  show ?case
  proof (intro allI impI)
    fix t r
    assume eq: "lpp_F toks = Inr (t, r)"
    from eq obtain x where x: "next_tok toks = Some x"
      by (subst (asm) lpp_F.simps) (auto split: option.splits)
    show "lpp_F (toks @ [p]) = Inr (t, r @ [p])"
    proof (cases "match_type x TN")
      case True
      with x eq obtain v where n: "parse_num toks = Inr (v, r)" and t: "t = Leaf v"
        by (subst (asm) lpp_F.simps) (auto split: sum.splits)
      show ?thesis
        using next_tok_append[OF x] True parse_num_append[OF n] t
        by (subst lpp_F.simps) simp
    next
      case False
      show ?thesis
      proof (cases "match_type x TRP")
        case notrp: False
        with False x eq show ?thesis
          by (subst (asm) lpp_F.simps) (auto split: if_splits)
      next
        case True
        with False x eq obtain r1 y where E: "lpp_E (consume toks) = Inr (t, r1)"
          and y: "next_tok r1 = Some y" and lp: "match_type y TLP" and r: "r = consume r1"
          by (subst (asm) lpp_F.simps)
            (auto split: option.splits sum.splits prod.splits if_splits)
        from "5.IH"[OF x False True] E
        have E': "lpp_E (consume toks @ [p]) = Inr (t, r1 @ [p])" by blast
        show ?thesis
          using next_tok_append[OF x] False True consume_append[OF x] E'
            next_tok_append[OF y] lp consume_append[OF y] r
          by (subst lpp_F.simps) simp
      qed
    qed
  qed
qed

text \<open>
  C3, amended: for the input \<open>(1 + 2\<close> the left-associative parser with parentheses
  fails with \<open>ExtraTokens\<close>, and so it does whenever an open parenthesis stands in
  front of a complete expression: the parenthesis is left over after the parse of the
  reversed tokens. \<open>UnbalancedParens\<close> is the error of an open parenthesis in the
  place of an operand, as in \<open>1 + (\<close>, and of a closing parenthesis whose expression
  is followed by a token that is not the open parenthesis, as in \<open>2 1)\<close>.
\<close>

theorem C3_unmatched_open_is_extra_token:
  "parse_infix_lpp string_to_number ''(1 + 2'' = Inl ExtraTokens
   \<and> (\<forall>x rest s t. tok_v x = Str s \<and> lpp_E (rev rest) = Inr (t, [])
        \<longrightarrow> parse_infix_lpp_tokens (x # rest) = Inl ExtraTokens)
   \<and> parse_infix_lpp string_to_number ''1 + ('' = Inl (UnbalancedParens InvalidOpen)
   \<and> parse_infix_lpp string_to_number ''2 1)'' = Inl (UnbalancedParens MissingOpen)"
proof -
  have e1: "parse_infix_lpp string_to_number ''(1 + 2'' = Inl ExtraTokens" by code_simp
  have e2: "parse_infix_lpp string_to_number ''1 + ('' = Inl (UnbalancedParens InvalidOpen)"
    by code_simp
  have e3: "parse_infix_lpp string_to_number ''2 1)'' = Inl (UnbalancedParens MissingOpen)"
    by code_simp
  have g: "parse_infix_lpp_tokens (x # rest) = Inl ExtraTokens"
    if h: "tok_v x = Str s \<and> lpp_E (rev rest) = Inr (t, [])"
    for x :: "'n token" and rest s t
  proof -
    from h have p: "tok_v x = Str s" and E: "lpp_E (rev rest) = Inr (t, [])" by simp_all
    from lpp_append(1)[OF p, of "rev rest"] E
    have "lpp_E (rev rest @ [x]) = Inr (t, [] @ [x])" by blast
    then show ?thesis
      by (simp add: parse_infix_lpp_tokens_def is_done_def next_tok_def)
  qed
  show ?thesis
    apply (intro conjI allI impI)
       apply (rule e1)
      apply (erule g)
     apply (rule e2)
    apply (rule e3)
    done
qed

theorem C3_unmatched_open_is_extra_token_witness:
  "tok_v \<lparr>tok_t = TLP, tok_v = (Str ''('' :: int tok_val)\<rparr> = Str ''(''
   \<and> lpp_E (rev [\<lparr>tok_t = TN, tok_v = Num (1::int)\<rparr>, \<lparr>tok_t = TO, tok_v = Sym ''+''\<rparr>,
                  \<lparr>tok_t = TN, tok_v = Num 2\<rparr>]) =
       Inr (Node (Sym ''+'') (Leaf (Num 2)) (Leaf (Num 1)), [])
   \<and> parse_infix_lpp_tokens
       [\<lparr>tok_t = TLP, tok_v = Str ''(''\<rparr>, \<lparr>tok_t = TN, tok_v = Num (1::int)\<rparr>,
        \<lparr>tok_t = TO, tok_v = Sym ''+''\<rparr>, \<lparr>tok_t = TN, tok_v = Num 2\<rparr>] = Inl ExtraTokens"
proof -
  let ?lp = "\<lparr>tok_t = TLP, tok_v = (Str ''('' :: int tok_val)\<rparr>"
  let ?rest = "[\<lparr>tok_t = TN, tok_v = Num (1::int)\<rparr>, \<lparr>tok_t = TO, tok_v = Sym ''+''\<rparr>,
                \<lparr>tok_t = TN, tok_v = Num 2\<rparr>]"
  have a1: "tok_v ?lp = Str ''(''" by simp
  have a2: "lpp_E (rev ?rest) = Inr (Node (Sym ''+'') (Leaf (Num 2)) (Leaf (Num 1)), [])"
    by code_simp
  from C3_unmatched_open_is_extra_token
  have "\<forall>x rest s t. tok_v x = Str s \<and> lpp_E (rev rest) = Inr (t :: int tree, [])
        \<longrightarrow> parse_infix_lpp_tokens (x # rest) = Inl ExtraTokens"
    by (elim conjE)
  with a1 a2 have a3: "parse_infix_lpp_tokens (?lp # ?rest) = Inl ExtraTokens" by blast
  show ?thesis
    by (intro conjI) (rule a1 a2 a3)+
qed

text \<open>
  The claim C4 says that a word that is neither white space nor an operator or a
  parenthesis and that is not a number makes the tokenizer raise \<open>InvalidToken\<close>.
  The lexer of the C parsers converts no numbers: \<open>lex_string\<close> makes the word
  \<open>abc\<close> a token of type \<open>TOK_VAL\<close> and returns.
\<close>

theorem C4_c_lexer_counterexample:
  "lex_string ''abc'' = Inr [\<lparr>type = TOK_VAL, word = ''abc''\<rparr>]"
  by code_simp

lemma lex_words_unlexable:
  "w \<in> set ws \<Longrightarrow> lex_num s2n w = None \<Longrightarrow> lex_op w = (None :: 'n token option) \<Longrightarrow>
     lex_paren w = (None :: 'n token option) \<Longrightarrow> isl (lex_words s2n (tokens :: 'n token list) ws)"
proof (induction ws arbitrary: tokens)
  case Nil
  then show ?case by simp
next
  case (Cons a ws)
  show ?case
  proof (cases "a = w")
    case True
    with Cons.prems show ?thesis by simp
  next
    case False
    with Cons.prems have "w \<in> set ws" by simp
    from Cons.IH[OF this Cons.prems(2,3,4)] show ?thesis
      by (simp split: option.splits)
  qed
qed

lemma lex_string_value_word:
  assumes ne: "w \<noteq> []" and v: "list_all is_value_char w" and z: "CHR 0x00 \<notin> set w"
  shows "lex_string w = Inr [\<lparr>type = TOK_VAL, word = w\<rparr>]"
proof -
  from ne obtain c rest where w: "w = c # rest" by (cases w) auto
  from v w have c: "is_value_char c" by simp
  then have ns: "\<not> isspace c" and no: "c \<notin> set op_chars" by (simp_all add: is_value_char_def)
  from z have tz: "takeWhile (\<lambda>c. c \<noteq> CHR 0x00) w = w"
    by (induction w) auto
  from ns w have dw: "dropWhile isspace w = c # rest" by simp
  from v have tw: "takeWhile is_value_char w = w" by (induction w) auto
  from v have dv: "dropWhile is_value_char w = []" by (induction w) auto
  have "lex_loop w [] = lex_loop (dropWhile is_value_char (c # rest))
      ([] @ [\<lparr>type = TOK_VAL, word = takeWhile is_value_char (c # rest)\<rparr>])"
    using ne dw no by (subst lex_loop.simps) simp
  also have "\<dots> = lex_loop [] [\<lparr>type = TOK_VAL, word = w\<rparr>]"
    using tw dv w by simp
  also have "\<dots> = Inr [\<lparr>type = TOK_VAL, word = w\<rparr>]"
    by (subst lex_loop.simps) simp
  finally show ?thesis by (simp add: lex_string_def tz)
qed

text \<open>
  C4, amended: in \<open>xpr-fix.scm\<close> a word that \<open>lex-num\<close>, \<open>lex-op\<close> and
  \<open>lex-paren\<close> all refuse makes \<open>lex-line\<close> end with an error, which every parser
  passes on to its caller: no list of tokens is returned and no number token is made
  of the word. In \<open>lexer.h\<close> there is no numeric conversion: a word of characters
  that are neither white space nor operators or parentheses becomes one token of type
  \<open>TOK_VAL\<close>, and \<open>lex_string\<close> returns.
\<close>

theorem C4_unlexable_word:
  "(\<forall>s2n tokens ws w.
      w \<in> set ws \<and> lex_num s2n w = None \<and> lex_op w = (None :: 'n token option)
      \<and> lex_paren w = (None :: 'n token option)
      \<longrightarrow> isl (lex_words s2n (tokens :: 'n token list) ws))
   \<and> (\<forall>s2n line. isl (lex_line s2n line :: error + 'n token list)
      \<longrightarrow> isl (parse_prefix s2n line) \<and> isl (parse_postfix s2n line)
          \<and> isl (parse_infix_rnn s2n line) \<and> isl (parse_infix_rpn s2n line)
          \<and> isl (parse_infix_lpp s2n line))
   \<and> isl (lex_line string_to_number ''abc'')
   \<and> isl (lex_line string_to_number ''1 + abc'')
   \<and> (\<forall>w. w \<noteq> [] \<and> list_all is_value_char w \<and> CHR 0x00 \<notin> set w
      \<longrightarrow> lex_string w = Inr [\<lparr>type = TOK_VAL, word = w\<rparr>])"
proof -
  have g1: "isl (lex_words s2n (tokens :: 'n token list) ws)"
    if "w \<in> set ws \<and> lex_num s2n w = None \<and> lex_op w = (None :: 'n token option)
      \<and> lex_paren w = (None :: 'n token option)"
    for s2n tokens ws w
    using that lex_words_unlexable[of w ws s2n tokens] by blast
  have g2: "isl (parse_prefix s2n line) \<and> isl (parse_postfix s2n line)
          \<and> isl (parse_infix_rnn s2n line) \<and> isl (parse_infix_rpn s2n line)
          \<and> isl (parse_infix_lpp s2n line)"
    if "isl (lex_line s2n line :: error + 'n token list)" for s2n line
    using that
    by (auto simp: parse_prefix_def parse_postfix_def parse_infix_rnn_def
        parse_infix_rpn_def parse_infix_lpp_def isl_def)
  have e1: "isl (lex_line string_to_number ''abc'')" by code_simp
  have e2: "isl (lex_line string_to_number ''1 + abc'')" by code_simp
  have g3: "lex_string w = Inr [\<lparr>type = TOK_VAL, word = w\<rparr>]"
    if "w \<noteq> [] \<and> list_all is_value_char w \<and> CHR 0x00 \<notin> set w" for w
    using that lex_string_value_word[of w] by blast
  show ?thesis
    apply (intro conjI allI impI)
            apply (erule g1)
           apply (drule g2, elim conjE, assumption)
          apply (drule g2, elim conjE, assumption)
         apply (drule g2, elim conjE, assumption)
        apply (drule g2, elim conjE, assumption)
       apply (drule g2, elim conjE, assumption)
      apply (rule e1)
     apply (rule e2)
    apply (erule g3)
    done
qed

theorem C4_unlexable_word_witness:
  "''abc'' \<in> set [''1'', ''+'', ''abc'']
   \<and> lex_num string_to_number ''abc'' = None
   \<and> lex_op ''abc'' = (None :: int token option)
   \<and> lex_paren ''abc'' = (None :: int token option)
   \<and> isl (lex_words string_to_number [] [''1'', ''+'', ''abc''])
   \<and> isl (lex_line string_to_number ''1 + abc'')
   \<and> isl (parse_prefix string_to_number ''1 + abc'')
   \<and> isl (parse_infix_lpp string_to_number ''1 + abc'')
   \<and> ''abc'' \<noteq> [] \<and> list_all is_value_char ''abc'' \<and> CHR 0x00 \<notin> set ''abc''
   \<and> lex_string ''abc'' = Inr [\<lparr>type = TOK_VAL, word = ''abc''\<rparr>]"
proof -
  note all = C4_unlexable_word
  have a1: "''abc'' \<in> set [''1'', ''+'', ''abc'']" by simp
  have a2: "lex_num string_to_number ''abc'' = None" by code_simp
  have a3: "lex_op ''abc'' = (None :: int token option)" by code_simp
  have a4: "lex_paren ''abc'' = (None :: int token option)" by code_simp
  from all have "\<forall>s2n tokens ws w.
      w \<in> set ws \<and> lex_num s2n w = None \<and> lex_op w = (None :: int token option)
      \<and> lex_paren w = (None :: int token option)
      \<longrightarrow> isl (lex_words s2n (tokens :: int token list) ws)"
    by (elim conjE)
  with a1 a2 a3 a4 have a5: "isl (lex_words string_to_number [] [''1'', ''+'', ''abc''])"
    by blast
  have b1: "isl (lex_line string_to_number ''1 + abc'')" by code_simp
  from all have "\<forall>s2n line. isl (lex_line s2n line :: error + int token list)
      \<longrightarrow> isl (parse_prefix s2n line) \<and> isl (parse_postfix s2n line)
          \<and> isl (parse_infix_rnn s2n line) \<and> isl (parse_infix_rpn s2n line)
          \<and> isl (parse_infix_lpp s2n line)"
    by (elim conjE)
  with b1 have b2: "isl (parse_prefix string_to_number ''1 + abc'')"
    and b3: "isl (parse_infix_lpp string_to_number ''1 + abc'')"
    by blast+
  have c1: "''abc'' \<noteq> []" by simp
  have c2: "list_all is_value_char ''abc''" by code_simp
  have c3: "CHR 0x00 \<notin> set ''abc''" by simp
  from all have "\<forall>w. w \<noteq> [] \<and> list_all is_value_char w \<and> CHR 0x00 \<notin> set w
      \<longrightarrow> lex_string w = Inr [\<lparr>type = TOK_VAL, word = w\<rparr>]"
    by (elim conjE)
  with c1 c2 c3 have c4: "lex_string ''abc'' = Inr [\<lparr>type = TOK_VAL, word = ''abc''\<rparr>]"
    by blast
  show ?thesis
    by (intro conjI) (rule a1 a2 a3 a4 a5 b1 b2 b3 c1 c2 c3 c4)+
qed

end
